theory Spec2Isabelle
  imports Complex_Main "HOL-Library.Char_ord" "HOL-Library.List_Lexorder"
begin

section \<open>Values and errors of the program\<close>

text \<open>
  The program is one Python class, \<open>Schedule\<close> (\<open>main.py\<close>). Every exception it can raise
  is a value of \<open>error\<close>; a function that can raise returns \<open>error + 'a\<close>, with \<open>Inl\<close>
  for the exception.
\<close>

datatype error =
    IndexError
  | ValueError
  | TypeError
  | AttributeError
  | ZeroDivisionError
  | Exception string

text \<open>
  A matrix cell is \<open>math.inf\<close> or a finite number. A finite Python number is modelled by
  its exact value, a rational: the time strategy produces \<open>int\<close>s, the price strategy
  \<open>float\<close>s, and Python's \<open><\<close>, \<open>==\<close> and \<open>in\<close> compare the two kinds by value.
  Rounding of float addition, NaN and \<open>-inf\<close> are outside this model.
\<close>

datatype weight = Fin rat | Inf

instantiation weight :: linorder
begin

fun less_eq_weight :: "weight \<Rightarrow> weight \<Rightarrow> bool" where
  "less_eq_weight (Fin a) (Fin b) = (a \<le> b)"
| "less_eq_weight (Fin a) Inf = True"
| "less_eq_weight Inf (Fin b) = False"
| "less_eq_weight Inf Inf = True"

fun less_weight :: "weight \<Rightarrow> weight \<Rightarrow> bool" where
  "less_weight (Fin a) (Fin b) = (a < b)"
| "less_weight (Fin a) Inf = True"
| "less_weight Inf (Fin b) = False"
| "less_weight Inf Inf = False"

instance
proof
  fix x y z :: weight
  show "(x < y) = (x \<le> y \<and> \<not> y \<le> x)"
    by (cases x; cases y) auto
  show "x \<le> x"
    by (cases x) auto
  show "x \<le> y \<Longrightarrow> y \<le> z \<Longrightarrow> x \<le> z"
    by (cases x; cases y; cases z) auto
  show "x \<le> y \<Longrightarrow> y \<le> x \<Longrightarrow> x = y"
    by (cases x; cases y) auto
  show "x \<le> y \<or> y \<le> x"
    by (cases x; cases y) auto
qed

end

type_synonym graph = "weight list list"

section \<open>Clock times and the time weight\<close>

text \<open>\<open>s.split(c)\<close> for a one-character separator: the pieces between the separators.\<close>

fun split_on :: "char \<Rightarrow> string \<Rightarrow> string list" where
  "split_on c [] = [[]]"
| "split_on c (x # xs) =
     (if x = c then [] # split_on c xs
      else (case split_on c xs of
              [] \<Rightarrow> [[x]]
            | w # ws \<Rightarrow> (x # w) # ws))"

text \<open>
  \<open>int(s)\<close> on a string: surrounding ASCII whitespace is stripped, one sign is allowed,
  then decimal digits, with single underscores between digits. Anything else raises
  ValueError. (Python also accepts non-ASCII decimal digits; the model reads bytes and
  rejects them.)
\<close>

definition is_digit :: "char \<Rightarrow> bool" where
  "is_digit c = (let n = (of_char c :: nat) in 48 \<le> n \<and> n \<le> 57)"

definition digit_val :: "char \<Rightarrow> nat" where
  "digit_val c = of_char c - 48"

definition is_space :: "char \<Rightarrow> bool" where
  "is_space c = (let n = (of_char c :: nat) in n = 32 \<or> (9 \<le> n \<and> n \<le> 13))"

fun parse_digits :: "nat \<Rightarrow> string \<Rightarrow> nat option" where
  "parse_digits acc [] = Some acc"
| "parse_digits acc (c # cs) =
     (if is_digit c then parse_digits (10 * acc + digit_val c) cs
      else if c = CHR ''_'' then
        (case cs of
           [] \<Rightarrow> None
         | d # ds \<Rightarrow> if is_digit d then parse_digits (10 * acc + digit_val d) ds else None)
      else None)"

definition parse_unsigned :: "string \<Rightarrow> nat option" where
  "parse_unsigned s =
     (case s of
        [] \<Rightarrow> None
      | c # cs \<Rightarrow> if is_digit c then parse_digits (digit_val c) cs else None)"

definition strip :: "string \<Rightarrow> string" where
  "strip s = rev (dropWhile is_space (rev (dropWhile is_space s)))"

definition py_int :: "string \<Rightarrow> error + int" where
  "py_int s =
     (case strip s of
        [] \<Rightarrow> Inl ValueError
      | c # cs \<Rightarrow>
          if c = CHR ''-'' then
            (case parse_unsigned cs of None \<Rightarrow> Inl ValueError | Some n \<Rightarrow> Inr (- int n))
          else if c = CHR ''+'' then
            (case parse_unsigned cs of None \<Rightarrow> Inl ValueError | Some n \<Rightarrow> Inr (int n))
          else
            (case parse_unsigned (c # cs) of None \<Rightarrow> Inl ValueError | Some n \<Rightarrow> Inr (int n)))"

text \<open>\<open>xs[i]\<close> for a non-negative index: IndexError out of range.\<close>

definition item :: "'a list \<Rightarrow> nat \<Rightarrow> error + 'a" where
  "item xs i = (if i < length xs then Inr (xs ! i) else Inl IndexError)"

text \<open>\<open>_date_to_num\<close>: \<open>int(date[0]) * 60 + int(date[1])\<close> after \<open>date.split(":")\<close>.\<close>

definition date_to_num :: "string \<Rightarrow> error + int" where
  "date_to_num date =
     (let parts = split_on CHR '':'' date in
      case item parts 0 of
        Inl e \<Rightarrow> Inl e
      | Inr h \<Rightarrow>
          (case py_int h of
             Inl e \<Rightarrow> Inl e
           | Inr hh \<Rightarrow>
               (case item parts 1 of
                  Inl e \<Rightarrow> Inl e
                | Inr m \<Rightarrow>
                    (case py_int m of
                       Inl e \<Rightarrow> Inl e
                     | Inr mm \<Rightarrow> Inr (hh * 60 + mm)))))"

text \<open>\<open>_get_weight_from_time\<close>.\<close>

definition get_weight_from_time :: "string \<Rightarrow> string \<Rightarrow> error + int" where
  "get_weight_from_time departure arrival =
     (case date_to_num departure of
        Inl e \<Rightarrow> Inl e
      | Inr num1 \<Rightarrow>
          (case date_to_num arrival of
             Inl e \<Rightarrow> Inl e
           | Inr num2 \<Rightarrow>
               Inr (if num1 < num2 then num2 - num1 else (num2 + 1440) - num1)))"

section \<open>Rendering integers\<close>

text \<open>\<open>str(n)\<close> of a Python int.\<close>

fun show_nat :: "nat \<Rightarrow> string" where
  "show_nat n =
     (if n < 10 then [char_of (48 + n)]
      else show_nat (n div 10) @ [char_of (48 + n mod 10)])"

declare show_nat.simps [simp del]

definition show_int :: "int \<Rightarrow> string" where
  "show_int i = (if i < 0 then CHR ''-'' # show_nat (nat (- i)) else show_nat (nat i))"

text \<open>
  The formatter that \<open>set_search_by("time")\<close> installs:
  \<open>f"{x // 60} hours and {x % 64} minutes"\<close>. Python's \<open>//\<close> and \<open>%\<close> with a positive
  divisor are HOL's \<open>div\<close> and \<open>mod\<close> on \<open>int\<close>.
\<close>

definition formatting_time :: "int \<Rightarrow> string" where
  "formatting_time x =
     show_int (x div 60) @ '' hours and '' @ show_int (x mod 64) @ '' minutes''"

section \<open>The constrained nearest-neighbour solver\<close>

text \<open>
  A comprehension \<open>[x for x in xs if p(x)]\<close> whose test can raise: the tests run in list
  order and the first exception ends the comprehension.
\<close>

fun filter_err :: "('a \<Rightarrow> error + bool) \<Rightarrow> 'a list \<Rightarrow> error + 'a list" where
  "filter_err p [] = Inr []"
| "filter_err p (x # xs) =
     (case p x of
        Inl e \<Rightarrow> Inl e
      | Inr b \<Rightarrow>
          (case filter_err p xs of
             Inl e \<Rightarrow> Inl e
           | Inr ys \<Rightarrow> Inr (if b then x # ys else ys)))"

text \<open>
  \<open>vor in passed_vortices\<close> where \<open>vor\<close> is a finite matrix entry and the list holds
  vertex indices: Python's \<open>in\<close> compares by value, so a weight \<open>2\<close> or \<open>2.0\<close> is
  "in" a list that holds the index \<open>2\<close>.
\<close>

fun num_in :: "weight \<Rightarrow> nat list \<Rightarrow> bool" where
  "num_in (Fin q) ps = (\<exists>p \<in> set ps. rat_of_nat p = q)"
| "num_in Inf ps = False"

text \<open>\<open>_isclosevortex\<close>.\<close>

definition isclosevortex :: "graph \<Rightarrow> nat list \<Rightarrow> nat \<Rightarrow> error + bool" where
  "isclosevortex g passed_vortices vortex =
     (case item g vortex of
        Inl e \<Rightarrow> Inl e
      | Inr r \<Rightarrow>
          (let free_vort =
                 length (map snd (filter (\<lambda>(i, vor). vor \<noteq> Inf \<and> i \<notin> set passed_vortices)
                                         (List.enumerate 0 r)))
           in Inr (if 1 < free_vort \<or> int (length g) - 2 \<le> int (length passed_vortices)
                   then False else True)))"

text \<open>\<open>_check_vortex\<close>. The second test of \<open>conn_vors\<close> is on the entry \<open>vor\<close>, as in the source.\<close>

definition check_vortex :: "graph \<Rightarrow> nat list \<Rightarrow> nat \<Rightarrow> error + bool" where
  "check_vortex g passed_vortices vortex =
     (if vortex \<in> set passed_vortices then Inr False
      else
        (case item g vortex of
           Inl e \<Rightarrow> Inl e
         | Inr r \<Rightarrow>
             (let conn_vors =
                    map fst (filter (\<lambda>(i, vor). vor \<noteq> Inf \<and> \<not> num_in vor passed_vortices)
                                    (List.enumerate 0 r))
              in case filter_err (isclosevortex g passed_vortices) conn_vors of
                   Inl e \<Rightarrow> Inl e
                 | Inr checked \<Rightarrow> Inr (if checked = [] then True else False))))"

text \<open>
  \<open>min(xs, key=k)\<close>: the first element whose key is smallest; ValueError on the empty
  list.
\<close>

fun min_by_key :: "('a \<Rightarrow> 'k::linorder) \<Rightarrow> 'a \<Rightarrow> 'a list \<Rightarrow> 'a" where
  "min_by_key key best [] = best"
| "min_by_key key best (x # xs) = min_by_key key (if key x < key best then x else best) xs"

definition py_min :: "('a \<Rightarrow> 'k::linorder) \<Rightarrow> 'a list \<Rightarrow> error + 'a" where
  "py_min key xs = (case xs of [] \<Rightarrow> Inl ValueError | x # ys \<Rightarrow> Inr (min_by_key key x ys))"

text \<open>
  The candidates of one pass of the \<open>while True\<close> loop (\<open>current_row\<close>), and the pair the
  pass selects from them.
\<close>

definition current_row :: "graph \<Rightarrow> nat list \<Rightarrow> nat \<Rightarrow> error + (nat \<times> weight) list" where
  "current_row g passed_vortices current_vortex =
     (case item g current_vortex of
        Inl e \<Rightarrow> Inl e
      | Inr r \<Rightarrow>
          filter_err (\<lambda>(i, weight). check_vortex g passed_vortices i) (List.enumerate 0 r))"

definition nna_step :: "graph \<Rightarrow> nat list \<Rightarrow> nat \<Rightarrow> error + (nat \<times> weight)" where
  "nna_step g passed_vortices current_vortex =
     (case current_row g passed_vortices current_vortex of
        Inl e \<Rightarrow> Inl e
      | Inr row \<Rightarrow> py_min snd row)"

lemma filter_err_set:
  "filter_err p xs = Inr ys \<Longrightarrow> set ys = {x \<in> set xs. p x = Inr True}"
proof (induction xs arbitrary: ys)
  case Nil
  then show ?case by simp
next
  case (Cons x xs)
  from Cons.prems obtain b zs where b: "p x = Inr b" and zs: "filter_err p xs = Inr zs"
    and ys: "ys = (if b then x # zs else zs)"
    by (simp split: sum.splits)
  from Cons.IH [OF zs] have IH: "set zs = {x \<in> set xs. p x = Inr True}" .
  show ?case
  proof (cases b)
    case True
    with b ys IH show ?thesis by auto
  next
    case False
    with b ys IH show ?thesis by auto
  qed
qed

lemma min_by_key_mem: "min_by_key key best xs \<in> set (best # xs)"
  by (induction xs arbitrary: best) (auto split: if_splits)

lemma py_min_mem: "py_min key xs = Inr x \<Longrightarrow> x \<in> set xs"
  using min_by_key_mem [of key]
  by (auto simp: py_min_def split: list.splits)

lemma check_vortex_True:
  "check_vortex g ps v = Inr True \<Longrightarrow> v \<notin> set ps \<and> v < length g"
  by (auto simp: check_vortex_def item_def split: if_splits sum.splits)

lemma nna_step_fresh:
  assumes "nna_step g ps cur = Inr (v, w)"
  shows "v \<notin> set ps \<and> v < length g"
proof -
  from assms obtain row where row: "current_row g ps cur = Inr row" and m: "py_min snd row = Inr (v, w)"
    by (auto simp: nna_step_def split: sum.splits)
  from row obtain r where "filter_err (\<lambda>(i, weight). check_vortex g ps i) (List.enumerate 0 r) = Inr row"
    by (auto simp: current_row_def split: sum.splits)
  from filter_err_set [OF this] py_min_mem [OF m]
  have "check_vortex g ps v = Inr True" by auto
  then show ?thesis by (rule check_vortex_True)
qed

text \<open>
  The \<open>while True\<close> loop of \<open>_nearest_neighbor_algorithm\<close>, on the loop's variables. Each
  pass appends a vertex of the graph that is not yet in \<open>passed_vortices\<close>, so the loop
  ends: by the \<open>break\<close>, by an exception, or because no such vertex is left.
\<close>

function nna_loop :: "graph \<Rightarrow> nat \<Rightarrow> nat list \<Rightarrow> rat \<Rightarrow> error + (nat list \<times> rat)" where
  "nna_loop g current_vortex passed_vortices route_weight =
     (case nna_step g passed_vortices current_vortex of
        Inl e \<Rightarrow> Inl e
      | Inr (v, min_weight) \<Rightarrow>
          (let passed' = passed_vortices @ [v];
               route_weight' = route_weight + (case min_weight of Fin q \<Rightarrow> q | Inf \<Rightarrow> 0)
           in if length passed' = length g then Inr (passed', route_weight')
              else nna_loop g v passed' route_weight'))"
  by pat_completeness auto
termination
proof (relation "measure (\<lambda>(g, cur, ps, rw). card ({..<length g} - set ps))")
  show "wf (measure (\<lambda>(g, cur, ps, rw). card ({..<length g} - set ps)))"
    by simp
next
  fix g :: graph and cur :: nat and ps :: "nat list" and rw :: rat
    and x2 :: "nat \<times> weight" and v :: nat and w :: weight
    and ps' :: "nat list" and rw' :: rat
  assume step: "nna_step g ps cur = Inr x2" and x2: "(v, w) = x2" and ps': "ps' = ps @ [v]"
  from step x2 have "v \<notin> set ps \<and> v < length g"
    using nna_step_fresh [of g ps cur v w] by simp
  then have "{..<length g} - set ps' \<subset> {..<length g} - set ps"
    using ps' by auto
  then have "card ({..<length g} - set ps') < card ({..<length g} - set ps)"
    by (intro psubset_card_mono) auto
  then show "((g, v, ps', rw'), (g, cur, ps, rw))
               \<in> measure (\<lambda>(g, cur, ps, rw). card ({..<length g} - set ps))"
    by simp
qed

declare nna_loop.simps [simp del]

text \<open>\<open>_nearest_neighbor_algorithm(graph, start_vortex)\<close>; \<open>None\<close> is the default argument.\<close>

definition nearest_neighbor_algorithm :: "graph \<Rightarrow> nat option \<Rightarrow> error + (nat list \<times> rat)" where
  "nearest_neighbor_algorithm g start_vortex =
     (let current_vortex = (case start_vortex of None \<Rightarrow> 0 | Some s \<Rightarrow> s)
      in nna_loop g current_vortex [current_vortex] 0)"

text \<open>
  The weight the loop adds for a selected entry
  (\<open>min_weight if min_weight != math.inf else 0\<close>), and the sum of these weights over the
  consecutive pairs of a sequence of vertices.
\<close>

fun fin0 :: "weight \<Rightarrow> rat" where
  "fin0 (Fin q) = q"
| "fin0 Inf = 0"

fun path_weight :: "graph \<Rightarrow> nat list \<Rightarrow> rat" where
  "path_weight g (a # b # rest) = fin0 (g ! a ! b) + path_weight g (b # rest)"
| "path_weight g [a] = 0"
| "path_weight g [] = 0"

section \<open>The instance, the weight strategies and the weight matrix\<close>

text \<open>
  Python's float functions are parameters of the model: \<open>float(s)\<close>, \<open>str(x)\<close> of a
  float, and \<open>str(round(x, 2))\<close>.
\<close>

record floatlib =
  float_of_str :: "string \<Rightarrow> error + weight"
  str_of_float :: "weight \<Rightarrow> string"
  round2_str :: "rat \<Rightarrow> string"

text \<open>
  The attributes of a \<open>Schedule\<close> instance. A schedule is a row of the file, a list of
  strings. An attribute that holds \<open>None\<close>, or that does not exist yet
  (\<open>_is_exect_schedule\<close> before \<open>set_search_by\<close>), is \<open>None\<close>.
\<close>

record schedule =
  schedules :: "string list list"
  stations :: "string list"
  weight_matrix :: "graph option"
  get_weight :: "(string list \<Rightarrow> error + weight) option"
  is_exact_schedule :: "(string list \<Rightarrow> string list list \<Rightarrow> error + bool) option"
  is_exect_schedule :: "(string list \<Rightarrow> string list list \<Rightarrow> error + bool) option"
  formatting_result :: "(rat \<Rightarrow> string) option"
  search_mode :: "string option"

text \<open>A comprehension \<open>[f(x) for x in xs]\<close> whose body can raise.\<close>

fun map_err :: "('a \<Rightarrow> error + 'b) \<Rightarrow> 'a list \<Rightarrow> error + 'b list" where
  "map_err f [] = Inr []"
| "map_err f (x # xs) =
     (case f x of
        Inl e \<Rightarrow> Inl e
      | Inr y \<Rightarrow>
          (case map_err f xs of
             Inl e \<Rightarrow> Inl e
           | Inr ys \<Rightarrow> Inr (y # ys)))"

text \<open>
  \<open>_get_stations\<close>: the sorted set of the origins and the destinations. Python orders
  strings by code point, as the lexicographic order on \<open>char list\<close> does.
\<close>

definition get_stations :: "string list list \<Rightarrow> error + string list" where
  "get_stations scheds =
     (case map_err (\<lambda>schedule. item schedule 1) scheds of
        Inl e \<Rightarrow> Inl e
      | Inr origins \<Rightarrow>
          (case map_err (\<lambda>schedule. item schedule 2) scheds of
             Inl e \<Rightarrow> Inl e
           | Inr dests \<Rightarrow> Inr (sort (remdups (origins @ dests)))))"

text \<open>\<open>__init__\<close>, on the rows that \<open>_get_schedules\<close> has read from the file.\<close>

definition init :: "string list list \<Rightarrow> error + schedule" where
  "init rows =
     (case get_stations rows of
        Inl e \<Rightarrow> Inl e
      | Inr sts \<Rightarrow>
          Inr \<lparr>schedules = rows, stations = sts, weight_matrix = None, get_weight = None,
               is_exact_schedule = None, is_exect_schedule = None,
               formatting_result = None, search_mode = None\<rparr>)"

text \<open>The three functions that \<open>set_search_by("price")\<close> installs.\<close>

definition get_weight_price :: "floatlib \<Rightarrow> string list \<Rightarrow> error + weight" where
  "get_weight_price fl schedule =
     (case item schedule 3 of
        Inl e \<Rightarrow> Inl e
      | Inr p \<Rightarrow> float_of_str fl p)"

definition is_exect_price :: "floatlib \<Rightarrow> string list \<Rightarrow> string list list \<Rightarrow> error + bool" where
  "is_exect_price fl sch rout =
     (case item sch 3 of
        Inl e \<Rightarrow> Inl e
      | Inr p \<Rightarrow>
          (case float_of_str fl p of
             Inl e \<Rightarrow> Inl e
           | Inr x \<Rightarrow>
               (case item rout 0 of
                  Inl e \<Rightarrow> Inl e
                | Inr leg \<Rightarrow> Inr (take 2 (drop 1 sch) @ [str_of_float fl x] = leg))))"

definition formatting_price :: "floatlib \<Rightarrow> rat \<Rightarrow> string" where
  "formatting_price fl x = round2_str fl x @ ''$''"

text \<open>
  The functions that \<open>set_search_by("time")\<close> installs. The call
  \<open>_get_weight_from_time(*schedule[4:])\<close> raises TypeError unless exactly two fields
  follow the fourth. The formatter is \<open>formatting_time\<close>, on the integer value of the
  total.
\<close>

definition get_weight_time :: "string list \<Rightarrow> error + weight" where
  "get_weight_time schedule =
     (case item schedule 4 of
        Inl e \<Rightarrow> Inl e
      | Inr d \<Rightarrow>
          (case item schedule 5 of
             Inl e \<Rightarrow> Inl e
           | Inr a \<Rightarrow>
               (case get_weight_from_time d a of
                  Inl e \<Rightarrow> Inl e
                | Inr n \<Rightarrow> Inr (Fin (of_int n)))))"

definition is_exect_time :: "string list \<Rightarrow> string list list \<Rightarrow> error + bool" where
  "is_exect_time schedule route =
     (case drop 4 schedule of
        [d, a] \<Rightarrow>
          (case get_weight_from_time d a of
             Inl e \<Rightarrow> Inl e
           | Inr n \<Rightarrow>
               (case item route 0 of
                  Inl e \<Rightarrow> Inl e
                | Inr leg \<Rightarrow> Inr (take 2 (drop 1 schedule) @ [show_int n] = leg)))
      | _ \<Rightarrow> Inl TypeError)"

text \<open>
  \<open>set_search_by\<close>: the outcome and the instance after the call. In the \<open>default\<close> case
  the exception is raised before any attribute is assigned.
\<close>

definition set_search_by :: "floatlib \<Rightarrow> string \<Rightarrow> schedule \<Rightarrow> (error + unit) \<times> schedule" where
  "set_search_by fl param self =
     (if param = ''price'' then
        (Inr (), self\<lparr>get_weight := Some (get_weight_price fl),
                       is_exect_schedule := Some (is_exect_price fl),
                       formatting_result := Some (formatting_price fl),
                       search_mode := Some param\<rparr>)
      else if param = ''time'' then
        (Inr (), self\<lparr>get_weight := Some get_weight_time,
                       is_exect_schedule := Some is_exect_time,
                       formatting_result := Some (\<lambda>x. formatting_time \<lfloor>x\<rfloor>),
                       search_mode := Some param\<rparr>)
      else (Inl (Exception (param @ '' is incorrect search mode.'')), self))"

text \<open>\<open>xs.index(x)\<close>: the first position of \<open>x\<close>, ValueError when there is none.\<close>

fun index_of :: "'a list \<Rightarrow> 'a \<Rightarrow> error + nat" where
  "index_of [] x = Inl ValueError"
| "index_of (y # ys) x =
     (if y = x then Inr 0
      else (case index_of ys x of Inl e \<Rightarrow> Inl e | Inr n \<Rightarrow> Inr (Suc n)))"

text \<open>\<open>self.stations.index(schedule[k])\<close>.\<close>

definition station_index :: "string list \<Rightarrow> string list \<Rightarrow> nat \<Rightarrow> error + nat" where
  "station_index sts schedule k =
     (case item schedule k of
        Inl e \<Rightarrow> Inl e
      | Inr name \<Rightarrow> index_of sts name)"

text \<open>
  One pass of the loop of \<open>_get_weight_matrix\<close>, and the loop. Calling \<open>_get_weight\<close>
  while it is \<open>None\<close> raises TypeError.
\<close>

definition matrix_step ::
  "string list \<Rightarrow> (string list \<Rightarrow> error + weight) option \<Rightarrow> graph \<Rightarrow> string list \<Rightarrow> error + graph" where
  "matrix_step sts gw m schedule =
     (case station_index sts schedule 1 of
        Inl e \<Rightarrow> Inl e
      | Inr i \<Rightarrow>
          (case station_index sts schedule 2 of
             Inl e \<Rightarrow> Inl e
           | Inr j \<Rightarrow>
               (case gw of
                  None \<Rightarrow> Inl TypeError
                | Some f \<Rightarrow>
                    (case f schedule of
                       Inl e \<Rightarrow> Inl e
                     | Inr weight \<Rightarrow>
                         (case item m i of
                            Inl e \<Rightarrow> Inl e
                          | Inr r \<Rightarrow>
                              (case item r j of
                                 Inl e \<Rightarrow> Inl e
                               | Inr cell \<Rightarrow>
                                   Inr (if weight < cell then m[i := r[j := weight]] else m)))))))"

fun matrix_loop ::
  "string list \<Rightarrow> (string list \<Rightarrow> error + weight) option \<Rightarrow> graph \<Rightarrow> string list list \<Rightarrow> error + graph" where
  "matrix_loop sts gw m [] = Inr m"
| "matrix_loop sts gw m (schedule # rest) =
     (case matrix_step sts gw m schedule of
        Inl e \<Rightarrow> Inl e
      | Inr m' \<Rightarrow> matrix_loop sts gw m' rest)"

text \<open>\<open>_get_weight_matrix\<close>.\<close>

definition get_weight_matrix :: "schedule \<Rightarrow> error + graph" where
  "get_weight_matrix self =
     (let num_sts = length (stations self);
          m = replicate num_sts (replicate num_sts Inf)
      in matrix_loop (stations self) (get_weight self) m (schedules self))"

section \<open>The route and its printing\<close>

text \<open>
  \<open>str(x)\<close> of a matrix cell: \<open>inf\<close>, an int when the time strategy has set the cell, a
  float otherwise.
\<close>

definition str_cell :: "floatlib \<Rightarrow> string option \<Rightarrow> weight \<Rightarrow> string" where
  "str_cell fl mode w =
     (case w of
        Inf \<Rightarrow> ''inf''
      | Fin q \<Rightarrow> if mode = Some ''time'' then show_int \<lfloor>q\<rfloor> else str_of_float fl w)"

text \<open>
  The legs that \<open>find_the_best_route\<close> builds from the visiting sequence:
  \<open>[stations[p], stations[seq[(i + 1) % num_sts]], str(matrix[p][seq[(i + 1) % num_sts]])]\<close>
  for each \<open>i, p\<close> of \<open>enumerate(seq)\<close>.
\<close>

definition route_leg ::
  "floatlib \<Rightarrow> schedule \<Rightarrow> graph \<Rightarrow> nat list \<Rightarrow> nat \<times> nat \<Rightarrow> error + string list" where
  "route_leg fl self m seq ip =
     (case ip of (i, p) \<Rightarrow>
        (let num_sts = length (stations self) in
         case item (stations self) p of
           Inl e \<Rightarrow> Inl e
         | Inr a \<Rightarrow>
             if num_sts = 0 then Inl ZeroDivisionError
             else
               (case item seq ((i + 1) mod num_sts) of
                  Inl e \<Rightarrow> Inl e
                | Inr q \<Rightarrow>
                    (case item (stations self) q of
                       Inl e \<Rightarrow> Inl e
                     | Inr b \<Rightarrow>
                         (case item m p of
                            Inl e \<Rightarrow> Inl e
                          | Inr r \<Rightarrow>
                              (case item r q of
                                 Inl e \<Rightarrow> Inl e
                               | Inr w \<Rightarrow> Inr [a, b, str_cell fl (search_mode self) w]))))))"

text \<open>
  The inner \<open>for\<close> loop of the printing: the first schedule that the rule matches with
  the route, if the loop reaches one; \<open>None\<close> when the loop ends without a match.
\<close>

fun find_first :: "('a \<Rightarrow> error + bool) \<Rightarrow> 'a list \<Rightarrow> error + 'a option" where
  "find_first p [] = Inr None"
| "find_first p (s # ss) =
     (case p s of
        Inl e \<Rightarrow> Inl e
      | Inr b \<Rightarrow> if b then Inr (Some s) else find_first p ss)"

definition scan ::
  "(string list \<Rightarrow> string list list \<Rightarrow> error + bool) \<Rightarrow> string list list \<Rightarrow> string list list
     \<Rightarrow> error + string list option" where
  "scan rule scheds route = find_first (\<lambda>schedule. rule schedule route) scheds"

text \<open>
  The loop \<open>while route:\<close>. It returns the printed schedules, or the exception of the
  rule; \<open>None\<close> is the loop that never ends.
\<close>

partial_function (option) print_loop ::
  "(string list \<Rightarrow> string list list \<Rightarrow> error + bool) \<Rightarrow> string list list \<Rightarrow> string list list
     \<Rightarrow> string list list \<Rightarrow> (error + string list list) option" where
  "print_loop rule scheds route printed =
     (if route = [] then Some (Inr printed)
      else
        (case scan rule scheds route of
           Inl e \<Rightarrow> Some (Inl e)
         | Inr None \<Rightarrow> print_loop rule scheds route printed
         | Inr (Some schedule) \<Rightarrow> print_loop rule scheds (tl route) (printed @ [schedule])))"

declare print_loop.simps [code]

text \<open>
  \<open>find_the_best_route\<close> up to the header line: the instance with its new matrix, the
  result of the solver, the legs without the last one, and the header.
\<close>

definition route_plan ::
  "floatlib \<Rightarrow> schedule \<Rightarrow> error + (schedule \<times> (nat list \<times> rat) \<times> string list list \<times> string)" where
  "route_plan fl self =
     (case get_weight_matrix self of
        Inl e \<Rightarrow> Inl e
      | Inr m \<Rightarrow>
          (let self' = self\<lparr>weight_matrix := Some m\<rparr> in
           case nearest_neighbor_algorithm m (Some 1) of
             Inl e \<Rightarrow> Inl e
           | Inr nna_result \<Rightarrow>
               (case map_err (route_leg fl self' m (fst nna_result))
                       (List.enumerate 0 (fst nna_result)) of
                  Inl e \<Rightarrow> Inl e
                | Inr route \<Rightarrow>
                    if route = [] then Inl IndexError
                    else
                      (case formatting_result self' of
                         None \<Rightarrow> Inl TypeError
                       | Some fmt \<Rightarrow>
                           (let formatted = fmt (snd nna_result);
                                mode = (case search_mode self' of None \<Rightarrow> ''None'' | Some x \<Rightarrow> x);
                                header = ''The '' @ [CHR 0x22] @ ''best'' @ [CHR 0x22] @ '' route by ''
                                           @ mode @ '' for '' @ formatted
                                           @ '' through each station:''
                            in Inr (self', nna_result, butlast route, header))))))"

text \<open>
  \<open>find_the_best_route\<close>: the printed lines (the header, then the schedules), or the
  exception that ends the call; \<open>None\<close> when the printing loop never ends.
\<close>

definition find_the_best_route ::
  "floatlib \<Rightarrow> schedule \<Rightarrow> (error + string \<times> string list list) option" where
  "find_the_best_route fl self =
     (case route_plan fl self of
        Inl e \<Rightarrow> Some (Inl e)
      | Inr (self', nna_result, route, header) \<Rightarrow>
          (let rule = (\<lambda>schedule route.
                         case is_exect_schedule self' of
                           None \<Rightarrow> Inl AttributeError
                         | Some f \<Rightarrow> f schedule route)
           in case print_loop rule (schedules self') route [] of
                None \<Rightarrow> None
              | Some (Inl e) \<Rightarrow> Some (Inl e)
              | Some (Inr printed) \<Rightarrow> Some (Inr (header, printed))))"

section \<open>Notions of the specification\<close>

text \<open>
  A fully connected weight matrix: square, with every off-diagonal entry finite.
  \<open>edge_weights\<close> lists the off-diagonal entries; \<open>circuit_weight\<close> is the sum over the
  consecutive pairs of a sequence with the pair from the last vertex back to the first.
\<close>


definition fully_connected :: "graph \<Rightarrow> bool" where
  "fully_connected g =
     ((\<forall>r \<in> set g. length r = length g) \<and>
      (\<forall>i \<in> {..<length g}. \<forall>j \<in> {..<length g}. i \<noteq> j \<longrightarrow> g ! i ! j \<noteq> Inf))"

definition edge_weights :: "graph \<Rightarrow> weight list" where
  "edge_weights g =
     concat (map (\<lambda>i. map (\<lambda>j. g ! i ! j) (filter (\<lambda>j. j \<noteq> i) [0..<length g])) [0..<length g])"

definition circuit_weight :: "graph \<Rightarrow> nat list \<Rightarrow> rat" where
  "circuit_weight g seq = path_weight g (seq @ [hd seq])"

text \<open>
  The feasibility filter in the words of the specification. \<open>free_vort_count g ps w\<close> is
  the number of finite entries of row \<open>w\<close> at unvisited positions: the remaining finite,
  unvisited outgoing connections of \<open>w\<close>.
\<close>

definition free_vort_count :: "graph \<Rightarrow> nat list \<Rightarrow> nat \<Rightarrow> nat" where
  "free_vort_count g ps w =
     length (filter (\<lambda>j. g ! w ! j \<noteq> Inf \<and> j \<notin> set ps) [0..<length (g ! w)])"

text \<open>
  "About to be stranded" as the specification states it (at most one remaining
  connection, and at least \<open>N - 2\<close> vertices visited), and the rejection of a candidate
  \<open>v\<close> that follows from it.
\<close>

definition stranded_spec :: "graph \<Rightarrow> nat list \<Rightarrow> nat \<Rightarrow> bool" where
  "stranded_spec g ps w =
     (free_vort_count g ps w \<le> 1 \<and> int (length g) - 2 \<le> int (length ps))"

definition rejects_spec :: "graph \<Rightarrow> nat list \<Rightarrow> nat \<Rightarrow> bool" where
  "rejects_spec g ps v =
     (\<exists>w \<in> {..<length g}. w \<notin> set ps \<and> g ! v ! w \<noteq> Inf \<and> stranded_spec g ps w)"

text \<open>
  The same two notions with the second condition as \<open>_isclosevortex\<close> has it: fewer than
  \<open>N - 2\<close> vertices visited.
\<close>

definition stranded :: "graph \<Rightarrow> nat list \<Rightarrow> nat \<Rightarrow> bool" where
  "stranded g ps w =
     (free_vort_count g ps w \<le> 1 \<and> int (length ps) < int (length g) - 2)"

definition rejects :: "graph \<Rightarrow> nat list \<Rightarrow> nat \<Rightarrow> bool" where
  "rejects g ps v =
     (\<exists>w \<in> {..<length g}. w \<notin> set ps \<and> g ! v ! w \<noteq> Inf \<and> stranded g ps w)"

text \<open>A weight matrix has as many columns in every row as it has rows.\<close>

definition square :: "graph \<Rightarrow> bool" where
  "square g = (\<forall>r \<in> set g. length r = length g)"

text \<open>
  \<open>_check_vortex\<close> tests the entry \<open>vor\<close> of row \<open>v\<close>, not its position, against the
  visited list. On the inputs where, for every finite entry of row \<open>v\<close>, that test agrees
  with the test of the position, the comprehension \<open>conn_vors\<close> holds the unvisited,
  finitely reachable neighbours of \<open>v\<close>.
\<close>

definition index_test_inert :: "graph \<Rightarrow> nat list \<Rightarrow> nat \<Rightarrow> bool" where
  "index_test_inert g ps v =
     (\<forall>w \<in> {..<length g}. g ! v ! w \<noteq> Inf \<longrightarrow> (num_in (g ! v ! w) ps \<longleftrightarrow> w \<in> set ps))"

text \<open>
  The weights of the records whose origin has index \<open>i\<close> and whose destination has
  index \<open>j\<close>, in file order: what one schedule contributes, and the list over all
  schedules of the instance.
\<close>

definition schedule_weight ::
  "string list \<Rightarrow> (string list \<Rightarrow> error + weight) option \<Rightarrow> nat \<Rightarrow> nat \<Rightarrow> string list \<Rightarrow> weight list" where
  "schedule_weight sts gw i j schedule =
     (if station_index sts schedule 1 = Inr i \<and> station_index sts schedule 2 = Inr j
      then (case gw of
              None \<Rightarrow> []
            | Some f \<Rightarrow> (case f schedule of Inl e \<Rightarrow> [] | Inr w \<Rightarrow> [w]))
      else [])"

definition cell_weights :: "schedule \<Rightarrow> nat \<Rightarrow> nat \<Rightarrow> weight list" where
  "cell_weights self i j =
     concat (map (schedule_weight (stations self) (get_weight self) i j) (schedules self))"


definition rule_defined ::
  "(string list \<Rightarrow> string list list \<Rightarrow> error + bool) \<Rightarrow> string list list \<Rightarrow> string list list
     \<Rightarrow> bool" where
  "rule_defined rule scheds route =
     (\<forall>k \<in> {..<length route}. \<forall>schedule \<in> set scheds.
        (case rule schedule (drop k route) of Inl e \<Rightarrow> False | Inr b \<Rightarrow> True))"

text \<open>Two example matrices: a fully connected one with distinct weights, and a chain.\<close>

definition graph_k4 :: graph where
  "graph_k4 =
     [[Inf, Fin 1, Fin 2, Fin 3],
      [Fin 4, Inf, Fin 5, Fin 6],
      [Fin 7, Fin 8, Inf, Fin 9],
      [Fin 10, Fin 11, Fin 12, Inf]]"

definition graph_chain :: graph where
  "graph_chain =
     [[Inf, Fin 1, Inf, Inf],
      [Inf, Inf, Fin 5, Inf],
      [Inf, Inf, Inf, Fin 7],
      [Inf, Inf, Inf, Inf]]"

text \<open>
  An example instance: four schedules over the stations A, B and C, as \<open>__init__\<close>
  leaves it, and a float library for it that reads and prints whole numbers.
\<close>

definition int_floats :: floatlib where
  "int_floats =
     \<lparr>float_of_str = (\<lambda>s. case py_int s of Inl e \<Rightarrow> Inl e | Inr n \<Rightarrow> Inr (Fin (of_int n))),
      str_of_float = (\<lambda>w. case w of Inf \<Rightarrow> ''inf'' | Fin q \<Rightarrow> show_int \<lfloor>q\<rfloor> @ ''.0''),
      round2_str = (\<lambda>q. show_int \<lfloor>q\<rfloor> @ ''.0'')\<rparr>"

definition abc_rows :: "string list list" where
  "abc_rows =
     [[''1'', ''A'', ''B'', ''10'', ''08:00'', ''08:30''],
      [''2'', ''B'', ''C'', ''5'', ''08:30'', ''09:00''],
      [''3'', ''C'', ''A'', ''7'', ''09:00'', ''09:30''],
      [''4'', ''A'', ''B'', ''8'', ''23:50'', ''00:10'']]"

definition abc :: schedule where
  "abc =
     \<lparr>schedules = abc_rows, stations = [''A'', ''B'', ''C''], weight_matrix = None,
      get_weight = None, is_exact_schedule = None, is_exect_schedule = None,
      formatting_result = None, search_mode = None\<rparr>"

text \<open>A second example instance: one schedule over two stations.\<close>

definition ab :: schedule where
  "ab =
     \<lparr>schedules = [[''1'', ''A'', ''B'', ''10'', ''08:00'', ''08:30'']],
      stations = [''A'', ''B''], weight_matrix = None,
      get_weight = None, is_exact_schedule = None, is_exect_schedule = None,
      formatting_result = None, search_mode = None\<rparr>"

section \<open>Properties\<close>

subsection \<open>The solver's loop\<close>

lemma path_weight_snoc:
  "ps \<noteq> [] \<Longrightarrow> path_weight g (ps @ [v]) = path_weight g ps + fin0 (g ! last ps ! v)"
  by (induction g ps rule: path_weight.induct) auto

lemma current_row_mem:
  assumes "current_row g ps cur = Inr row" and "(v, w) \<in> set row"
  shows "cur < length g \<and> v < length (g ! cur) \<and> w = g ! cur ! v \<and> check_vortex g ps v = Inr True"
proof -
  from assms(1) have cur: "cur < length g"
    and f: "filter_err (\<lambda>(i, weight). check_vortex g ps i) (List.enumerate 0 (g ! cur)) = Inr row"
    by (auto simp: current_row_def item_def split: if_splits)
  from filter_err_set [OF f] assms(2)
  have "(v, w) \<in> set (List.enumerate 0 (g ! cur))" and "check_vortex g ps v = Inr True"
    by auto
  with cur show ?thesis
    by (auto simp: in_set_enumerate_eq)
qed

lemma nna_step_edge:
  assumes "nna_step g ps cur = Inr (v, w)"
  shows "cur < length g \<and> v < length (g ! cur) \<and> w = g ! cur ! v"
proof -
  from assms obtain row where row: "current_row g ps cur = Inr row" and m: "py_min snd row = Inr (v, w)"
    by (auto simp: nna_step_def split: sum.splits)
  from current_row_mem [OF row py_min_mem [OF m]] show ?thesis by simp
qed

lemma nna_loop_inv:
  "nna_loop g cur ps rw = Inr (seq, tw) \<Longrightarrow> distinct ps \<Longrightarrow> set ps \<subseteq> {..<length g} \<Longrightarrow>
   distinct seq \<and> set seq \<subseteq> {..<length g} \<and> length seq = length g \<and> (\<exists>ys. seq = ps @ ys)"
proof (induction g cur ps rw rule: nna_loop.induct)
  case (1 g cur ps rw)
  from "1.prems"(1) obtain v w where step: "nna_step g ps cur = Inr (v, w)"
    by (subst (asm) nna_loop.simps) (auto split: sum.splits)
  from nna_step_fresh [OF step] have fresh: "v \<notin> set ps" "v < length g" by auto
  let ?ps = "ps @ [v]"
  let ?rw = "rw + (case w of Fin q \<Rightarrow> q | Inf \<Rightarrow> 0)"
  have d: "distinct ?ps" and sub: "set ?ps \<subseteq> {..<length g}"
    using fresh "1.prems" by auto
  show ?case
  proof (cases "length ?ps = length g")
    case True
    with "1.prems"(1) step have "seq = ?ps"
      by (subst (asm) nna_loop.simps) simp
    with d sub True show ?thesis by simp
  next
    case False
    with "1.prems"(1) step have rec: "nna_loop g v ?ps ?rw = Inr (seq, tw)"
      by (subst (asm) nna_loop.simps) (simp add: Let_def)
    from "1.IH" [OF step refl refl refl False rec d sub]
    show ?thesis by auto
  qed
qed

lemma nna_loop_weight:
  "nna_loop g cur ps rw = Inr (seq, tw) \<Longrightarrow> ps \<noteq> [] \<Longrightarrow> last ps = cur \<Longrightarrow>
   tw = rw + path_weight g seq - path_weight g ps"
proof (induction g cur ps rw rule: nna_loop.induct)
  case (1 g cur ps rw)
  from "1.prems"(1) obtain v w where step: "nna_step g ps cur = Inr (v, w)"
    by (subst (asm) nna_loop.simps) (auto split: sum.splits)
  from nna_step_edge [OF step] have w: "w = g ! cur ! v" by simp
  let ?ps = "ps @ [v]"
  let ?rw = "rw + (case w of Fin q \<Rightarrow> q | Inf \<Rightarrow> 0)"
  have fin: "(case w of Fin q \<Rightarrow> q | Inf \<Rightarrow> 0) = fin0 w"
    by (cases w) auto
  have pw: "path_weight g ?ps = path_weight g ps + fin0 w"
    using path_weight_snoc [OF "1.prems"(2), of g v] "1.prems"(3) w by simp
  show ?case
  proof (cases "length ?ps = length g")
    case True
    with "1.prems"(1) step have "seq = ?ps" "tw = ?rw"
      by (subst (asm) nna_loop.simps, simp)+
    with pw fin show ?thesis by simp
  next
    case False
    with "1.prems"(1) step have rec: "nna_loop g v ?ps ?rw = Inr (seq, tw)"
      by (subst (asm) nna_loop.simps) (simp add: Let_def)
    have "tw = ?rw + path_weight g seq - path_weight g ?ps"
      by (rule "1.IH" [OF step refl refl refl False rec]) auto
    with pw fin show ?thesis by simp
  qed
qed

subsection \<open>The solver on fully connected graphs\<close>

lemma filter_err_filter:
  "(\<And>x. x \<in> set xs \<Longrightarrow> p x = Inr (q x)) \<Longrightarrow> filter_err p xs = Inr (filter q xs)"
  by (induction xs) simp_all

lemma free_vort_card:
  "length (filter (\<lambda>(i, vor). vor \<noteq> Inf \<and> i \<notin> set ps) (List.enumerate 0 r))
     = card {i. i < length r \<and> r ! i \<noteq> Inf \<and> i \<notin> set ps}"
  by (simp add: length_filter_conv_card nth_enumerate_eq case_prod_beta cong: conj_cong)

lemma fc_free_vort:
  assumes fc: "fully_connected g" and w: "w < length g"
    and few: "int (length ps) < int (length g) - 2"
  shows "1 < card {i. i < length (g ! w) \<and> g ! w ! i \<noteq> Inf \<and> i \<notin> set ps}"
proof -
  let ?N = "length g"
  let ?F = "{i. i < length (g ! w) \<and> g ! w ! i \<noteq> Inf \<and> i \<notin> set ps}"
  from fc w have len: "length (g ! w) = ?N"
    by (simp add: fully_connected_def)
  have sub: "{..<?N} - (set ps \<union> {w}) \<subseteq> ?F"
    using fc w len by (auto simp: fully_connected_def)
  have fin: "finite ?F" by simp
  have "card (set ps \<union> {w}) \<le> length ps + 1"
    using card_length [of ps] card_Un_le [of "set ps" "{w}"] by simp
  then have "?N - (length ps + 1) \<le> card ({..<?N} - (set ps \<union> {w}))"
    using diff_card_le_card_Diff [of "set ps \<union> {w}" "{..<?N}"] by simp
  also have "\<dots> \<le> card ?F"
    by (rule card_mono [OF fin sub])
  finally show ?thesis using few by linarith
qed

lemma fc_isclosevortex:
  assumes "fully_connected g" and "w < length g"
  shows "isclosevortex g ps w = Inr False"
proof (cases "int (length ps) < int (length g) - 2")
  case True
  from fc_free_vort [OF assms True] assms(2) show ?thesis
    by (simp add: isclosevortex_def item_def free_vort_card)
next
  case False
  with assms(2) show ?thesis
    by (simp add: isclosevortex_def item_def)
qed

lemma fc_check_vortex:
  assumes fc: "fully_connected g" and v: "v < length g"
  shows "check_vortex g ps v = Inr (v \<notin> set ps)"
proof (cases "v \<in> set ps")
  case True
  then show ?thesis by (simp add: check_vortex_def)
next
  case False
  let ?conn = "map fst (filter (\<lambda>(i, vor). vor \<noteq> Inf \<and> \<not> num_in vor ps) (List.enumerate 0 (g ! v)))"
  from fc v have len: "length (g ! v) = length g"
    by (simp add: fully_connected_def)
  have "\<And>x. x \<in> set ?conn \<Longrightarrow> isclosevortex g ps x = Inr ((\<lambda>_. False) x)"
  proof -
    fix x assume "x \<in> set ?conn"
    then have "x < length g"
      using len by (auto simp: in_set_enumerate_eq)
    with fc show "isclosevortex g ps x = Inr ((\<lambda>_. False) x)"
      by (simp add: fc_isclosevortex)
  qed
  then have "filter_err (isclosevortex g ps) ?conn = Inr (filter (\<lambda>_. False) ?conn)"
    by (rule filter_err_filter)
  with False v show ?thesis
    by (simp add: check_vortex_def item_def)
qed

lemma fc_current_row:
  assumes fc: "fully_connected g" and cur: "cur < length g"
  shows "current_row g ps cur
           = Inr (filter (\<lambda>(i, w). i \<notin> set ps) (List.enumerate 0 (g ! cur)))"
proof -
  from fc cur have len: "length (g ! cur) = length g"
    by (simp add: fully_connected_def)
  have "filter_err (\<lambda>(i, weight). check_vortex g ps i) (List.enumerate 0 (g ! cur))
          = Inr (filter (\<lambda>(i, w). i \<notin> set ps) (List.enumerate 0 (g ! cur)))"
  proof (rule filter_err_filter)
    fix x assume "x \<in> set (List.enumerate 0 (g ! cur))"
    then have "fst x < length g"
      using len by (auto simp: in_set_enumerate_eq)
    with fc show "(case x of (i, weight) \<Rightarrow> check_vortex g ps i) = Inr (case x of (i, w) \<Rightarrow> i \<notin> set ps)"
      by (cases x) (simp add: fc_check_vortex)
  qed
  with cur show ?thesis
    by (simp add: current_row_def item_def)
qed

lemma fc_nna_step:
  assumes fc: "fully_connected g" and cur: "cur < length g"
    and d: "distinct ps" and sub: "set ps \<subseteq> {..<length g}" and len: "length ps < length g"
  shows "\<exists>v w. nna_step g ps cur = Inr (v, w)"
proof -
  from d len have "card (set ps) < card {..<length g}"
    by (simp add: distinct_card)
  with sub obtain u where u: "u < length g" "u \<notin> set ps"
    by (metis lessThan_iff less_irrefl_nat subsetI subset_antisym)
  from fc cur have lenr: "length (g ! cur) = length g"
    by (simp add: fully_connected_def)
  let ?row = "filter (\<lambda>(i, w). i \<notin> set ps) (List.enumerate 0 (g ! cur))"
  from u lenr have "(u, g ! cur ! u) \<in> set ?row"
    by (auto simp: in_set_enumerate_eq)
  then have "?row \<noteq> []"
    by (metis empty_iff empty_set)
  then obtain x xs where "?row = x # xs"
    by (cases ?row) auto
  then show ?thesis
    using fc_current_row [OF fc cur, of ps]
    by (cases "min_by_key snd x xs") (simp add: nna_step_def py_min_def)
qed

lemma fc_nna_loop:
  "fully_connected g \<Longrightarrow> cur < length g \<Longrightarrow> distinct ps \<Longrightarrow> set ps \<subseteq> {..<length g} \<Longrightarrow>
   length ps < length g \<Longrightarrow> \<exists>seq tw. nna_loop g cur ps rw = Inr (seq, tw)"
proof (induction g cur ps rw rule: nna_loop.induct)
  case (1 g cur ps rw)
  from fc_nna_step [OF "1.prems"] obtain v w where step: "nna_step g ps cur = Inr (v, w)"
    by auto
  from nna_step_fresh [OF step] have fresh: "v \<notin> set ps" "v < length g" by auto
  let ?ps = "ps @ [v]"
  let ?rw = "rw + (case w of Fin q \<Rightarrow> q | Inf \<Rightarrow> 0)"
  have d: "distinct ?ps" and sub: "set ?ps \<subseteq> {..<length g}"
    using fresh "1.prems" by auto
  show ?case
  proof (cases "length ?ps = length g")
    case True
    with step show ?thesis
      by (subst nna_loop.simps) simp
  next
    case False
    with "1.prems"(5) have "length ?ps < length g" by simp
    from "1.IH" [OF step refl refl refl False "1.prems"(1) fresh(2) d sub this]
    obtain seq tw where "nna_loop g v ?ps ?rw = Inr (seq, tw)" by auto
    with step False show ?thesis
      by (subst nna_loop.simps) (simp add: Let_def)
  qed
qed

lemma nna_shape:
  assumes "nearest_neighbor_algorithm g start = Inr (seq, tw)"
  shows "length seq = length g \<and> hd seq = (case start of None \<Rightarrow> 0 | Some s \<Rightarrow> s) \<and>
         distinct seq \<and> set seq = {..<length g} \<and> tw = path_weight g seq"
proof -
  define s where "s = (case start of None \<Rightarrow> 0 | Some s \<Rightarrow> s)"
  from assms have loop: "nna_loop g s [s] 0 = Inr (seq, tw)"
    by (simp add: nearest_neighbor_algorithm_def s_def Let_def)
  then obtain v w where step: "nna_step g [s] s = Inr (v, w)"
    by (subst (asm) nna_loop.simps) (auto split: sum.splits)
  from nna_step_edge [OF step] have "s < length g" by simp
  with nna_loop_inv [OF loop] obtain ys where d: "distinct seq" and sub: "set seq \<subseteq> {..<length g}"
    and len: "length seq = length g" and seq: "seq = [s] @ ys"
    by auto
  from d len have "card (set seq) = card {..<length g}"
    by (simp add: distinct_card)
  with sub have "set seq = {..<length g}"
    by (intro card_subset_eq) auto
  moreover from nna_loop_weight [OF loop] have "tw = path_weight g seq"
    by simp
  ultimately show ?thesis
    using d len seq by (simp add: s_def)
qed

lemma fc_returns:
  assumes fc: "fully_connected g" and n: "2 \<le> length g"
    and s: "(case start of None \<Rightarrow> 0 | Some s \<Rightarrow> s) < length g"
  shows "\<exists>seq tw. nearest_neighbor_algorithm g start = Inr (seq, tw)"
proof -
  define s0 where "s0 = (case start of None \<Rightarrow> 0 | Some s \<Rightarrow> s)"
  from s n have "\<exists>seq tw. nna_loop g s0 [s0] 0 = Inr (seq, tw)"
    by (intro fc_nna_loop [OF fc]) (auto simp: s0_def)
  then show ?thesis
    by (simp add: nearest_neighbor_algorithm_def s0_def Let_def)
qed

lemma k4_result: "nearest_neighbor_algorithm graph_k4 None = Inr ([0, 1, 2, 3], 15)"
  by code_simp

lemma k4_fc: "fully_connected graph_k4"
  by code_simp

lemma k4_distinct: "distinct (edge_weights graph_k4)"
  by code_simp

subsection \<open>The feasibility filter\<close>

lemma free_vort_count_eq:
  "length (filter (\<lambda>(i, vor). vor \<noteq> Inf \<and> i \<notin> set ps) (List.enumerate 0 (g ! w)))
     = free_vort_count g ps w"
proof -
  have "free_vort_count g ps w = card {i. i < length (g ! w) \<and> g ! w ! i \<noteq> Inf \<and> i \<notin> set ps}"
    by (simp add: free_vort_count_def length_filter_conv_card cong: conj_cong)
  then show ?thesis
    by (simp add: free_vort_card)
qed

lemma isclosevortex_stranded:
  assumes "w < length g"
  shows "isclosevortex g ps w = Inr (stranded g ps w)"
proof -
  have "isclosevortex g ps w =
          Inr (\<not> (1 < free_vort_count g ps w \<or> int (length g) - 2 \<le> int (length ps)))"
    using assms by (simp add: isclosevortex_def item_def free_vort_count_eq)
  also have "(\<not> (1 < free_vort_count g ps w \<or> int (length g) - 2 \<le> int (length ps)))
               = stranded g ps w"
    unfolding stranded_def by linarith
  finally show ?thesis .
qed

lemma check_vortex_exact:
  assumes sq: "square g" and v: "v < length g" and nv: "v \<notin> set ps"
  shows "check_vortex g ps v =
           Inr (\<not> (\<exists>w \<in> {..<length g}. g ! v ! w \<noteq> Inf \<and> \<not> num_in (g ! v ! w) ps \<and> stranded g ps w))"
proof -
  let ?conn = "map fst (filter (\<lambda>(i, vor). vor \<noteq> Inf \<and> \<not> num_in vor ps) (List.enumerate 0 (g ! v)))"
  from sq v have len: "length (g ! v) = length g"
    by (simp add: square_def)
  have conn: "set ?conn = {w. w < length g \<and> g ! v ! w \<noteq> Inf \<and> \<not> num_in (g ! v ! w) ps}"
    using len by (auto simp: in_set_enumerate_eq image_iff)
  have "filter_err (isclosevortex g ps) ?conn = Inr (filter (stranded g ps) ?conn)"
  proof (rule filter_err_filter)
    fix x assume "x \<in> set ?conn"
    with conn have "x < length g" by simp
    then show "isclosevortex g ps x = Inr (stranded g ps x)"
      by (rule isclosevortex_stranded)
  qed
  moreover have "(filter (stranded g ps) ?conn = []) =
      (\<not> (\<exists>w \<in> {..<length g}. g ! v ! w \<noteq> Inf \<and> \<not> num_in (g ! v ! w) ps \<and> stranded g ps w))"
    unfolding filter_empty_conv conn by auto
  ultimately show ?thesis
    using v nv by (simp add: check_vortex_def item_def)
qed

lemma chain_square: "square graph_chain"
  by code_simp

lemma chain_inert: "index_test_inert graph_chain [0] 1"
  by code_simp

lemma single_row: "current_row [[Fin 1]] [0] 0 = Inr []"
  by code_simp

lemma chain_row: "current_row graph_chain [0] 0 = Inr [(3, Inf)]"
  by code_simp

subsection \<open>The weight matrix and the route\<close>

lemma map_err_nth:
  "map_err f xs = Inr ys \<Longrightarrow> length ys = length xs \<and> (\<forall>k < length xs. f (xs ! k) = Inr (ys ! k))"
proof (induction xs arbitrary: ys)
  case Nil
  then show ?case by simp
next
  case (Cons x xs)
  from Cons.prems obtain y zs where y: "f x = Inr y" and zs: "map_err f xs = Inr zs"
    and ys: "ys = y # zs"
    by (auto split: sum.splits)
  from Cons.IH [OF zs] y ys show ?case
    by (auto simp: nth_Cons split: nat.splits)
qed

lemma matrix_step_length:
  "matrix_step sts gw m schedule = Inr m' \<Longrightarrow> length m' = length m"
  by (auto simp: matrix_step_def split: sum.splits option.splits if_splits)

lemma matrix_loop_length:
  "matrix_loop sts gw m ss = Inr m' \<Longrightarrow> length m' = length m"
proof (induction ss arbitrary: m)
  case Nil
  then show ?case by simp
next
  case (Cons s ss)
  from Cons.prems obtain m1 where a: "matrix_step sts gw m s = Inr m1"
    and b: "matrix_loop sts gw m1 ss = Inr m'"
    by (auto split: sum.splits)
  from Cons.IH [OF b] matrix_step_length [OF a] show ?case by simp
qed

lemma get_weight_matrix_length:
  "get_weight_matrix self = Inr m \<Longrightarrow> length m = length (stations self)"
  using matrix_loop_length [of "stations self" "get_weight self" _ "schedules self" m]
  by (simp add: get_weight_matrix_def Let_def)

lemma route_leg_shape:
  assumes "route_leg fl self m seq (i, p) = Inr leg"
  shows "\<exists>b c. leg = [stations self ! p, b, c]"
proof -
  from assms have p: "item (stations self) p = Inr (stations self ! p)"
    by (cases "p < length (stations self)") (simp_all add: route_leg_def Let_def item_def)
  from assms p have n: "length (stations self) \<noteq> 0"
    by (auto simp: route_leg_def Let_def)
  from assms p n obtain q where q: "item seq ((i + 1) mod length (stations self)) = Inr q"
    by (cases "item seq ((i + 1) mod length (stations self))") (simp_all add: route_leg_def Let_def)
  from assms p n q obtain b where b: "item (stations self) q = Inr b"
    by (cases "item (stations self) q") (simp_all add: route_leg_def Let_def)
  from assms p n q b obtain r where r: "item m p = Inr r"
    by (cases "item m p") (simp_all add: route_leg_def Let_def)
  from assms p n q b r obtain w where w: "item r q = Inr w"
    by (cases "item r q") (simp_all add: route_leg_def Let_def)
  from assms p n q b r w show ?thesis
    by (auto simp: route_leg_def Let_def)
qed

lemma abc_price_plan:
  "(case route_plan int_floats (snd (set_search_by int_floats ''price'' abc)) of
      Inl e \<Rightarrow> False
    | Inr (self', nna_result, route, header) \<Rightarrow>
        nna_result = ([1, 2, 0], 12) \<and>
        route = [[''B'', ''C'', ''5.0''], [''C'', ''A'', ''7.0'']])"
  by code_simp

subsection \<open>The cells of the weight matrix\<close>

lemma matrix_step_cell:
  assumes step: "matrix_step sts gw m s = Inr m'" and i: "i < length m" and j: "j < length (m ! i)"
  shows "m' ! i ! j = fold min (schedule_weight sts gw i j s) (m ! i ! j) \<and>
         length m' = length m \<and> length (m' ! i) = length (m ! i)"
proof -
  from step obtain i0 where i0: "station_index sts s 1 = Inr i0"
    by (cases "station_index sts s 1") (simp_all add: matrix_step_def)
  from step i0 obtain j0 where j0: "station_index sts s 2 = Inr j0"
    by (cases "station_index sts s 2") (simp_all add: matrix_step_def)
  from step i0 j0 obtain f where gw: "gw = Some f"
    by (cases gw) (simp_all add: matrix_step_def)
  from step i0 j0 gw obtain w where w: "f s = Inr w"
    by (cases "f s") (simp_all add: matrix_step_def)
  from step i0 j0 gw w have i0m: "i0 < length m"
    by (cases "i0 < length m") (simp_all add: matrix_step_def item_def)
  from step i0 j0 gw w i0m have j0m: "j0 < length (m ! i0)"
    by (cases "j0 < length (m ! i0)") (simp_all add: matrix_step_def item_def)
  from step i0 j0 gw w i0m j0m
  have m': "m' = (if w < m ! i0 ! j0 then m[i0 := (m ! i0)[j0 := w]] else m)"
    by (simp add: matrix_step_def item_def)
  show ?thesis
  proof (cases "i = i0 \<and> j = j0")
    case True
    then have "schedule_weight sts gw i j s = [w]"
      using i0 j0 gw w by (simp add: schedule_weight_def)
    with True m' i0m j0m show ?thesis
      by (auto simp: min_def)
  next
    case False
    then have "schedule_weight sts gw i j s = []"
      using i0 j0 by (auto simp: schedule_weight_def)
    with False m' i j i0m j0m show ?thesis
      by (auto simp: nth_list_update)
  qed
qed

lemma matrix_loop_cell:
  "matrix_loop sts gw m ss = Inr m' \<Longrightarrow> i < length m \<Longrightarrow> j < length (m ! i) \<Longrightarrow>
   m' ! i ! j = fold min (concat (map (schedule_weight sts gw i j) ss)) (m ! i ! j)"
proof (induction ss arbitrary: m)
  case Nil
  then show ?case by simp
next
  case (Cons s ss)
  from Cons.prems(1) obtain m1 where a: "matrix_step sts gw m s = Inr m1"
    and b: "matrix_loop sts gw m1 ss = Inr m'"
    by (auto split: sum.splits)
  from matrix_step_cell [OF a Cons.prems(2,3)]
  have c: "m1 ! i ! j = fold min (schedule_weight sts gw i j s) (m ! i ! j)"
    and l: "i < length m1" "j < length (m1 ! i)"
    using Cons.prems(2,3) by simp_all
  from Cons.IH [OF b l] c show ?case by simp
qed

lemma abc_price_matrix:
  "get_weight_matrix (snd (set_search_by int_floats ''price'' abc)) =
     Inr [[Inf, Fin 8, Inf], [Inf, Inf, Fin 5], [Fin 7, Inf, Inf]]"
  by code_simp

lemma abc_price_cell_01:
  "cell_weights (snd (set_search_by int_floats ''price'' abc)) 0 1 = [Fin 10, Fin 8]"
  by code_simp

lemma abc_price_cell_00:
  "cell_weights (snd (set_search_by int_floats ''price'' abc)) 0 0 = []"
  by code_simp

subsection \<open>The printing loop\<close>

lemma print_loop_stall:
  assumes "route \<noteq> []" and "scan rule scheds route = Inr None"
  shows "print_loop rule scheds route printed = None"
proof (cases "print_loop rule scheds route printed")
  case None
  then show ?thesis .
next
  case (Some y)
  have "\<not> (route \<noteq> [] \<and> scan rule scheds route = Inr None)"
  proof (rule print_loop.raw_induct
      [where P = "\<lambda>rule scheds route printed y. \<not> (route \<noteq> [] \<and> scan rule scheds route = Inr None)",
       OF _ Some])
    fix f :: "(string list \<Rightarrow> string list list \<Rightarrow> error + bool) \<Rightarrow> string list list \<Rightarrow> string list list
        \<Rightarrow> string list list \<Rightarrow> (error + string list list) option"
      and rule scheds route printed y
    assume IH: "\<And>rule scheds route printed y. f rule scheds route printed = Some y \<Longrightarrow>
        \<not> (route \<noteq> [] \<and> scan rule scheds route = Inr None)"
      and F: "(if route = [] then Some (Inr printed)
               else case scan rule scheds route of
                      Inl e \<Rightarrow> Some (Inl e)
                    | Inr None \<Rightarrow> f rule scheds route printed
                    | Inr (Some schedule) \<Rightarrow> f rule scheds (tl route) (printed @ [schedule])) = Some y"
    show "\<not> (route \<noteq> [] \<and> scan rule scheds route = Inr None)"
    proof
      assume c: "route \<noteq> [] \<and> scan rule scheds route = Inr None"
      with F have "f rule scheds route printed = Some y" by simp
      from IH [OF this] c show False by simp
    qed
  qed
  with assms show ?thesis by simp
qed


lemma find_first_Some:
  "find_first p ss = Inr (Some s) \<Longrightarrow> s \<in> set ss \<and> p s = Inr True"
proof (induction ss)
  case Nil
  then show ?case by simp
next
  case (Cons x ss)
  show ?case
  proof (cases "p x")
    case (Inl e)
    with Cons.prems show ?thesis by simp
  next
    case (Inr b)
    with Cons show ?thesis by (cases b) auto
  qed
qed



lemma print_loop_prefix:
  "print_loop rule scheds route printed = Some (Inr lines) \<Longrightarrow> \<exists>rest. lines = printed @ rest"
proof (induction route arbitrary: printed)
  case Nil
  then show ?case by (subst (asm) print_loop.simps) simp
next
  case (Cons r rs)
  show ?case
  proof (cases "scan rule scheds (r # rs)")
    case (Inl e)
    with Cons.prems show ?thesis by (subst (asm) print_loop.simps) simp
  next
    case (Inr found)
    show ?thesis
    proof (cases found)
      case None
      with Inr have "print_loop rule scheds (r # rs) printed = None"
        by (intro print_loop_stall) simp_all
      with Cons.prems show ?thesis by simp
    next
      case (Some s)
      with Inr Cons.prems have "print_loop rule scheds rs (printed @ [s]) = Some (Inr lines)"
        by (subst (asm) print_loop.simps) simp
      from Cons.IH [OF this] show ?thesis by auto
    qed
  qed
qed

lemma print_loop_head:
  assumes "print_loop rule scheds route [] = Some (Inr lines)" and "route \<noteq> []"
  shows "lines \<noteq> [] \<and> scan rule scheds route = Inr (Some (hd lines))"
proof (cases "scan rule scheds route")
  case (Inl e)
  with assms show ?thesis by (subst (asm) print_loop.simps) simp
next
  case (Inr found)
  show ?thesis
  proof (cases found)
    case None
    with Inr assms(2) have "print_loop rule scheds route [] = None"
      by (intro print_loop_stall) simp_all
    with assms(1) show ?thesis by simp
  next
    case (Some s)
    with Inr assms have "print_loop rule scheds (tl route) ([] @ [s]) = Some (Inr lines)"
      by (subst (asm) print_loop.simps) simp
    from print_loop_prefix [OF this] obtain rest where "lines = s # rest" by auto
    with Inr Some show ?thesis by simp
  qed
qed






subsection \<open>The equality rules on the records of the instance\<close>

text \<open>
  \<open>find_the_best_route\<close> reaches the printing loop only after \<open>_get_weight_matrix\<close> has
  returned, and then the weight function has returned for every record. The price rule
  raises only where the price weight function does; the time rule raises only where the
  time weight function does, or on a record that has not six fields.
\<close>

lemma matrix_step_weight:
  assumes "matrix_step sts gw m s = Inr m'"
  shows "\<exists>f w. gw = Some f \<and> f s = Inr w"
proof -
  from assms obtain i0 where i0: "station_index sts s 1 = Inr i0"
    by (cases "station_index sts s 1") (simp_all add: matrix_step_def)
  from assms i0 obtain j0 where j0: "station_index sts s 2 = Inr j0"
    by (cases "station_index sts s 2") (simp_all add: matrix_step_def)
  from assms i0 j0 obtain f where gw: "gw = Some f"
    by (cases gw) (simp_all add: matrix_step_def)
  from assms i0 j0 gw obtain w where "f s = Inr w"
    by (cases "f s") (simp_all add: matrix_step_def)
  with gw show ?thesis by blast
qed

lemma matrix_loop_weights:
  "matrix_loop sts gw m ss = Inr m' \<Longrightarrow> s \<in> set ss \<Longrightarrow> \<exists>f w. gw = Some f \<and> f s = Inr w"
proof (induction ss arbitrary: m)
  case Nil
  then show ?case by simp
next
  case (Cons x ss)
  from Cons.prems(1) obtain m1 where a: "matrix_step sts gw m x = Inr m1"
    and b: "matrix_loop sts gw m1 ss = Inr m'"
    by (auto split: sum.splits)
  show ?case
  proof (cases "s = x")
    case True
    with matrix_step_weight [OF a] show ?thesis by simp
  next
    case False
    with Cons.prems(2) have "s \<in> set ss" by simp
    from Cons.IH [OF b this] show ?thesis .
  qed
qed

lemma price_rule_defined:
  assumes "get_weight_price fl s = Inr w" and "rt \<noteq> []"
  shows "\<exists>b. is_exect_price fl s rt = Inr b"
proof -
  from assms(1) obtain p where p: "item s 3 = Inr p"
    by (cases "item s 3") (simp_all add: get_weight_price_def)
  with assms(1) have x: "float_of_str fl p = Inr w"
    by (simp add: get_weight_price_def)
  from assms(2) have "item rt 0 = Inr (rt ! 0)"
    by (simp add: item_def)
  with p x show ?thesis
    by (simp add: is_exect_price_def)
qed

lemma time_rule_defined:
  assumes "get_weight_time s = Inr w" and "length s = 6" and "rt \<noteq> []"
  shows "\<exists>b. is_exect_time s rt = Inr b"
proof -
  from assms(2) obtain a b c d e f where s: "s = [a, b, c, d, e, f]"
    by (auto simp: eval_nat_numeral length_Suc_conv)
  from assms(1) obtain n where n: "get_weight_from_time e f = Inr n"
    unfolding s by (cases "get_weight_from_time e f") (simp_all add: get_weight_time_def item_def)
  from assms(3) have "item rt 0 = Inr (rt ! 0)"
    by (simp add: item_def)
  with n show ?thesis
    unfolding s by (simp add: is_exect_time_def)
qed

lemma strategy_rule_defined:
  assumes m: "get_weight_matrix self = Inr m"
    and mode: "(get_weight self = Some (get_weight_price fl) \<and> f = is_exect_price fl) \<or>
               (get_weight self = Some get_weight_time \<and> f = is_exect_time \<and>
                (\<forall>s \<in> set (schedules self). length s = 6))"
  shows "rule_defined f (schedules self) route"
  unfolding rule_defined_def
proof (intro ballI)
  fix k s assume k: "k \<in> {..<length route}" and s: "s \<in> set (schedules self)"
  from k have ne: "drop k route \<noteq> []" by simp
  from m obtain m0 where "matrix_loop (stations self) (get_weight self) m0 (schedules self) = Inr m"
    by (simp add: get_weight_matrix_def Let_def)
  from matrix_loop_weights [OF this s] obtain g w where g: "get_weight self = Some g" "g s = Inr w"
    by blast
  from mode show "case f s (drop k route) of Inl e \<Rightarrow> False | Inr b \<Rightarrow> True"
  proof
    assume a: "get_weight self = Some (get_weight_price fl) \<and> f = is_exect_price fl"
    with g have "get_weight_price fl s = Inr w" by simp
    from price_rule_defined [OF this ne] a show ?thesis by auto
  next
    assume a: "get_weight self = Some get_weight_time \<and> f = is_exect_time \<and>
                (\<forall>s \<in> set (schedules self). length s = 6)"
    with g have w: "get_weight_time s = Inr w" by simp
    from a s have "length s = 6" by blast
    from time_rule_defined [OF w this ne] a show ?thesis by auto
  qed
qed

subsection \<open>The itinerary\<close>

lemma slice_origin:
  assumes "take 2 (drop 1 s) @ [x] = [a, b, c]"
  shows "item s 1 = Inr a"
proof -
  from assms have t: "take 2 (drop 1 s) = [a, b]" by simp
  then obtain s0 s1 where s: "s = s0 # s1" by (cases s) auto
  with t obtain s2 where "s1 = a # s2" by (cases s1) auto
  with s show ?thesis by (simp add: item_def)
qed

lemma price_rule_origin:
  assumes "is_exect_price fl s rt = Inr True" and "rt \<noteq> []" and "hd rt = [a, b, c]"
  shows "item s 1 = Inr a"
proof -
  from assms(1) obtain p where p: "item s 3 = Inr p"
    by (cases "item s 3") (simp_all add: is_exect_price_def)
  from assms(1) p obtain x where x: "float_of_str fl p = Inr x"
    by (cases "float_of_str fl p") (simp_all add: is_exect_price_def)
  from assms(2,3) have "item rt 0 = Inr [a, b, c]"
    by (cases rt) (simp_all add: item_def)
  with assms(1) p x have "take 2 (drop 1 s) @ [str_of_float fl x] = [a, b, c]"
    by (simp add: is_exect_price_def)
  then show ?thesis by (rule slice_origin)
qed

lemma time_rule_origin:
  assumes "is_exect_time s rt = Inr True" and "rt \<noteq> []" and "hd rt = [a, b, c]"
  shows "item s 1 = Inr a"
proof -
  from assms(1) obtain d e where de: "drop 4 s = [d, e]"
    by (auto simp: is_exect_time_def split: list.splits)
  from assms(1) de obtain n where n: "get_weight_from_time d e = Inr n"
    by (cases "get_weight_from_time d e") (simp_all add: is_exect_time_def)
  from assms(2,3) have "item rt 0 = Inr [a, b, c]"
    by (cases rt) (simp_all add: item_def)
  with assms(1) de n have "take 2 (drop 1 s) @ [show_int n] = [a, b, c]"
    by (simp add: is_exect_time_def)
  then show ?thesis by (rule slice_origin)
qed

lemma route_plan_parts:
  assumes "route_plan fl self = Inr (self', (seq, tw), route, header)"
  shows "\<exists>m legs. get_weight_matrix self = Inr m \<and>
           nearest_neighbor_algorithm m (Some 1) = Inr (seq, tw) \<and>
           self' = self\<lparr>weight_matrix := Some m\<rparr> \<and>
           map_err (route_leg fl (self\<lparr>weight_matrix := Some m\<rparr>) m seq) (List.enumerate 0 seq) = Inr legs \<and>
           route = butlast legs"
proof -
  from assms obtain m where m: "get_weight_matrix self = Inr m"
    by (cases "get_weight_matrix self") (simp_all add: route_plan_def)
  from assms m obtain r where r: "nearest_neighbor_algorithm m (Some 1) = Inr r"
    by (cases "nearest_neighbor_algorithm m (Some 1)") (simp_all add: route_plan_def Let_def)
  let ?self = "self\<lparr>weight_matrix := Some m\<rparr>"
  from assms m r obtain legs where
    legs: "map_err (route_leg fl ?self m (fst r)) (List.enumerate 0 (fst r)) = Inr legs"
    by (cases "map_err (route_leg fl ?self m (fst r)) (List.enumerate 0 (fst r))")
       (simp_all add: route_plan_def Let_def)
  from assms m r legs have ne: "legs \<noteq> []"
    by (cases "legs = []") (simp_all add: route_plan_def Let_def)
  from assms m r legs ne obtain fmt where fmt: "formatting_result ?self = Some fmt"
    by (cases "formatting_result ?self") (simp_all add: route_plan_def Let_def)
  from assms m r legs ne fmt have "self' = ?self" "r = (seq, tw)" "route = butlast legs"
    by (simp_all add: route_plan_def Let_def)
  with m r legs show ?thesis by auto
qed

lemma find_the_best_route_loop:
  assumes plan: "route_plan fl self = Inr (self', r, route, header)"
    and rule: "is_exect_schedule self' = Some f" and scheds: "schedules self' = scheds"
  shows "find_the_best_route fl self =
           (case print_loop f scheds route [] of
              None \<Rightarrow> None
            | Some (Inl e) \<Rightarrow> Some (Inl e)
            | Some (Inr printed) \<Rightarrow> Some (Inr (header, printed)))"
  using assms by (simp add: find_the_best_route_def)

lemma abc_price_run:
  "find_the_best_route int_floats (snd (set_search_by int_floats ''price'' abc)) =
     Some (Inr (''The '' @ [CHR 0x22] @ ''best'' @ [CHR 0x22]
                  @ '' route by price for 12.0$ through each station:'',
                [[''2'', ''B'', ''C'', ''5'', ''08:30'', ''09:00''],
                 [''3'', ''C'', ''A'', ''7'', ''09:00'', ''09:30'']]))"
  by code_simp

lemma ab_init: "init [[''1'', ''A'', ''B'', ''10'', ''08:00'', ''08:30'']] = Inr ab"
  by (simp add: init_def get_stations_def item_def ab_def)

lemma abc_init: "init abc_rows = Inr abc"
  by (simp add: init_def get_stations_def item_def abc_def abc_rows_def)

lemma ab_price_plan:
  "(case route_plan int_floats (snd (set_search_by int_floats ''price'' ab)) of
      Inl e \<Rightarrow> False
    | Inr (self', nna_result, route, header) \<Rightarrow>
        nna_result = ([1, 0], 0) \<and> route = [[''B'', ''A'', ''inf'']])"
  by code_simp

lemma ab_scan:
  "scan (is_exect_price int_floats) [[''1'', ''A'', ''B'', ''10'', ''08:00'', ''08:30'']]
     [[''B'', ''A'', ''inf'']] = Inr None"
  by code_simp

lemma ab_price_stall:
  "find_the_best_route int_floats (snd (set_search_by int_floats ''price'' ab)) = None"
proof -
  let ?P = "snd (set_search_by int_floats ''price'' ab)"
  from ab_price_plan obtain self' header where
    plan: "route_plan int_floats ?P = Inr (self', ([1, 0], 0), [[''B'', ''A'', ''inf'']], header)"
    by (auto split: sum.splits)
  from route_plan_parts [OF plan] obtain m where "self' = ?P\<lparr>weight_matrix := Some m\<rparr>"
    by blast
  then have r: "is_exect_schedule self' = Some (is_exect_price int_floats)"
    and s: "schedules self' = [[''1'', ''A'', ''B'', ''10'', ''08:00'', ''08:30'']]"
    by (simp_all add: set_search_by_def ab_def)
  have "print_loop (is_exect_price int_floats) [[''1'', ''A'', ''B'', ''10'', ''08:00'', ''08:30'']]
          [[''B'', ''A'', ''inf'']] [] = None"
    by (rule print_loop_stall [OF _ ab_scan]) simp
  then show ?thesis
    unfolding find_the_best_route_loop [OF plan r s] by simp
qed

subsection \<open>Claims\<close>

lemma date_to_num_2350: "date_to_num ''23:50'' = Inr 1430"
  by code_simp

lemma date_to_num_0010: "date_to_num ''00:10'' = Inr 10"
  by code_simp

lemma date_to_num_0900: "date_to_num ''09:00'' = Inr 540"
  by code_simp

text \<open>
  C2, as the code has it. Departure \<open>23:50\<close> and arrival \<open>00:10\<close> weigh 20 minutes. For
  departure \<open>09:00\<close> and arrival \<open>09:00\<close> the test \<open>num1 < num2\<close> fails, the day is
  added, and the weight is 1440 minutes.
\<close>

theorem time_weight_examples:
  "get_weight_from_time ''23:50'' ''00:10'' = Inr 20 \<and>
   get_weight_from_time ''09:00'' ''09:00'' = Inr 1440"
  by (simp add: get_weight_from_time_def date_to_num_2350 date_to_num_0010 date_to_num_0900)

text \<open>C2 as stated fails: the weight of the same instant is not 0.\<close>

theorem time_weight_same_instant_not_zero:
  "\<not> (get_weight_from_time ''23:50'' ''00:10'' = Inr 20 \<and>
      get_weight_from_time ''09:00'' ''09:00'' = Inr 0)"
  by (simp add: get_weight_from_time_def date_to_num_0900)

text \<open>
  C7: on 60 minutes the time formatter prints 60 as the minutes, where \<open>60 mod 60\<close>
  is 0: the source takes the minutes modulo 64.
\<close>

theorem formatting_time_60:
  "formatting_time 60 = ''1 hours and 60 minutes'' \<and>
   formatting_time 60 \<noteq> show_int (60 div 60) @ '' hours and '' @ show_int (60 mod 60) @ '' minutes''"
  by code_simp

text \<open>
  C6: whenever the solver returns a sequence, the sequence has as many entries as the
  matrix has rows, begins with the start index (0 when none is given), holds no vertex
  twice and holds every index below the number of rows: it is a permutation of
  \<open>0..N-1\<close>.
\<close>

theorem nna_returns_permutation:
  assumes "nearest_neighbor_algorithm g start = Inr (seq, tw)"
  shows "length seq = length g \<and> hd seq = (case start of None \<Rightarrow> 0 | Some s \<Rightarrow> s) \<and>
         distinct seq \<and> set seq = {..<length g}"
  using nna_shape [OF assms] by simp

text \<open>The solver returns on a three-station matrix from start index 1.\<close>

theorem nna_returns_permutation_witness:
  "nearest_neighbor_algorithm [[Inf, Fin 2, Fin 5], [Fin 2, Inf, Fin 1], [Fin 5, Fin 1, Inf]] (Some 1)
     = Inr ([1, 2, 0], 6) \<and>
   length [1::nat, 2, 0] = length [[Inf, Fin 2, Fin 5], [Fin 2, Inf, Fin 1], [Fin 5, Fin 1, Inf]] \<and>
   hd [1::nat, 2, 0] = 1 \<and> distinct [1::nat, 2, 0] \<and> set [1::nat, 2, 0] = {..<3}"
proof -
  have r: "nearest_neighbor_algorithm [[Inf, Fin 2, Fin 5], [Fin 2, Inf, Fin 1], [Fin 5, Fin 1, Inf]] (Some 1)
     = Inr ([1, 2, 0], 6)"
    by code_simp
  from nna_returns_permutation [OF r] r show ?thesis
    by simp
qed

text \<open>
  C3, as the code has it: on every fully connected matrix of four stations with
  distinct edge weights, from every start index in range, the solver returns a
  sequence of length 4 that is a permutation of the four indices, and the reported
  total is the sum of the weights over the consecutive pairs of the sequence. The pair
  from the last vertex back to the first is not part of the total.
\<close>

theorem fully_connected_four:
  assumes "length g = 4" and "fully_connected g" and "distinct (edge_weights g)"
    and "(case start of None \<Rightarrow> 0 | Some s \<Rightarrow> s) < 4"
  shows "\<exists>seq tw. nearest_neighbor_algorithm g start = Inr (seq, tw) \<and>
           length seq = 4 \<and> distinct seq \<and> set seq = {..<4} \<and> tw = path_weight g seq"
proof -
  from fc_returns [OF assms(2), of start] assms(1,4)
  obtain seq tw where r: "nearest_neighbor_algorithm g start = Inr (seq, tw)"
    by auto
  from nna_shape [OF r] assms(1) r show ?thesis
    by auto
qed

text \<open>The four-station example satisfies the hypotheses.\<close>

theorem fully_connected_four_witness:
  "length graph_k4 = 4 \<and> fully_connected graph_k4 \<and> distinct (edge_weights graph_k4) \<and>
   (\<exists>seq tw. nearest_neighbor_algorithm graph_k4 None = Inr (seq, tw) \<and>
      length seq = 4 \<and> distinct seq \<and> set seq = {..<4} \<and> tw = path_weight graph_k4 seq)"
proof -
  have l: "length graph_k4 = 4" by (simp add: graph_k4_def)
  from fully_connected_four [OF l k4_fc k4_distinct, of None] l k4_fc k4_distinct
  show ?thesis by simp
qed

text \<open>
  C3 as stated fails: on the four-station example the solver reports 15, and the sum
  with the edge from the last vertex back to the first is 25.
\<close>

theorem total_excludes_wrap_edge:
  "length graph_k4 = 4 \<and> fully_connected graph_k4 \<and> distinct (edge_weights graph_k4) \<and>
   nearest_neighbor_algorithm graph_k4 None = Inr ([0, 1, 2, 3], 15) \<and>
   circuit_weight graph_k4 [0, 1, 2, 3] \<noteq> 15"
proof -
  have "length graph_k4 = 4" by (simp add: graph_k4_def)
  moreover have "circuit_weight graph_k4 [0, 1, 2, 3] = 25"
    by (simp add: circuit_weight_def graph_k4_def)
  ultimately show ?thesis
    using k4_fc k4_distinct k4_result by simp
qed

text \<open>
  C1, as the code has it: for every square weight matrix, every list of visited
  vertices and every unvisited candidate \<open>v\<close>, on the inputs where the membership test
  of \<open>conn_vors\<close> selects the unvisited neighbours, the filter rejects \<open>v\<close> exactly when
  some unvisited, finitely reachable neighbour \<open>w\<close> of \<open>v\<close> has at most one remaining
  finite, unvisited outgoing connection and fewer than \<open>N - 2\<close> vertices are visited;
  otherwise \<open>v\<close> is accepted.
\<close>

theorem check_vortex_rejects:
  assumes "square g" and "v < length g" and "v \<notin> set ps" and "index_test_inert g ps v"
  shows "check_vortex g ps v = Inr (\<not> rejects g ps v)"
proof -
  have "(\<exists>w \<in> {..<length g}. g ! v ! w \<noteq> Inf \<and> \<not> num_in (g ! v ! w) ps \<and> stranded g ps w)
          = rejects g ps v"
    using assms(4) unfolding rejects_def index_test_inert_def by blast
  with check_vortex_exact [OF assms(1,2,3)] show ?thesis by simp
qed

text \<open>On the chain, with vertex 0 visited, candidate 1 is rejected: its neighbour 2 has one connection left.\<close>

theorem check_vortex_rejects_witness:
  "square graph_chain \<and> (1::nat) < length graph_chain \<and> (1::nat) \<notin> set [0] \<and>
   index_test_inert graph_chain [0] 1 \<and> rejects graph_chain [0] 1 \<and>
   check_vortex graph_chain [0] 1 = Inr False"
proof -
  have l: "(1::nat) < length graph_chain" by (simp add: graph_chain_def)
  have n: "(1::nat) \<notin> set [0]" by simp
  have r: "rejects graph_chain [0] 1" by code_simp
  from check_vortex_rejects [OF chain_square l n chain_inert] r chain_square l chain_inert
  show ?thesis by simp
qed

text \<open>
  C1 as stated fails: on the chain with one of four vertices visited, the filter rejects
  candidate 1, and the rule of the claim (at least \<open>N - 2\<close> visited) accepts it.
\<close>

theorem filter_rejects_before_last_steps:
  "square graph_chain \<and> index_test_inert graph_chain [0] 1 \<and>
   check_vortex graph_chain [0] 1 = Inr False \<and> \<not> rejects_spec graph_chain [0] 1"
proof -
  have "check_vortex graph_chain [0] 1 = Inr False" by code_simp
  moreover have "\<not> rejects_spec graph_chain [0] 1" by code_simp
  ultimately show ?thesis using chain_square chain_inert by simp
qed

text \<open>
  C4, as the code has it: at every solver step the candidates are exactly the pairs of
  a position \<open>i\<close> of the current row and its entry such that the filter accepts \<open>i\<close>;
  they are all unvisited, and their weight may be finite or infinite. When no candidate
  is left, the solver raises ValueError at that step; otherwise it selects one of the
  candidates.
\<close>

theorem candidates_of_step:
  assumes "current_row g ps cur = Inr row"
  shows "set row = {(i, w). i < length (g ! cur) \<and> w = g ! cur ! i \<and> check_vortex g ps i = Inr True} \<and>
         (\<forall>(i, w) \<in> set row. i \<notin> set ps) \<and>
         (row = [] \<longrightarrow> nna_loop g cur ps rw = Inl ValueError) \<and>
         (row \<noteq> [] \<longrightarrow> (\<exists>v w. nna_step g ps cur = Inr (v, w) \<and> (v, w) \<in> set row))"
proof -
  from assms have cur: "cur < length g"
    and f: "filter_err (\<lambda>(i, weight). check_vortex g ps i) (List.enumerate 0 (g ! cur)) = Inr row"
    by (auto simp: current_row_def item_def split: if_splits)
  have a: "set row = {(i, w). i < length (g ! cur) \<and> w = g ! cur ! i \<and> check_vortex g ps i = Inr True}"
    unfolding filter_err_set [OF f] by (auto simp: in_set_enumerate_eq)
  have b: "\<forall>(i, w) \<in> set row. i \<notin> set ps"
    using a check_vortex_True by auto
  have c: "row = [] \<longrightarrow> nna_loop g cur ps rw = Inl ValueError"
    using assms by (subst nna_loop.simps) (simp add: nna_step_def py_min_def)
  have d: "row \<noteq> [] \<longrightarrow> (\<exists>v w. nna_step g ps cur = Inr (v, w) \<and> (v, w) \<in> set row)"
  proof
    assume "row \<noteq> []"
    then obtain x xs where row: "row = x # xs" by (cases row) auto
    obtain v w where vw: "min_by_key snd x xs = (v, w)" by (cases "min_by_key snd x xs")
    with row assms have "nna_step g ps cur = Inr (v, w)"
      by (simp add: nna_step_def py_min_def)
    moreover from min_by_key_mem [of snd x xs] vw row have "(v, w) \<in> set row" by simp
    ultimately show "\<exists>v w. nna_step g ps cur = Inr (v, w) \<and> (v, w) \<in> set row" by blast
  qed
  from a b c d show ?thesis by blast
qed

text \<open>A step with no candidate, and a step with one.\<close>

theorem candidates_of_step_witness:
  "current_row [[Fin 1]] [0] 0 = Inr [] \<and> nna_loop [[Fin 1]] 0 [0] 0 = Inl ValueError \<and>
   current_row graph_chain [0] 0 = Inr [(3, Inf)] \<and>
   (\<exists>v w. nna_step graph_chain [0] 0 = Inr (v, w) \<and> (v, w) \<in> set [(3, Inf)])"
proof -
  from candidates_of_step [OF single_row, of 0]
  have a: "nna_loop [[Fin 1]] 0 [0] 0 = Inl ValueError"
    by blast
  from candidates_of_step [OF chain_row, of 0]
  have b: "\<exists>v w. nna_step graph_chain [0] 0 = Inr (v, w) \<and> (v, w) \<in> set [(3, Inf)]"
    by blast
  from a b single_row chain_row show ?thesis
    by blast
qed

text \<open>
  C4 as stated fails: on the chain the only candidate of the first step is vertex 3,
  whose edge from vertex 0 is infinite; no candidate with a finite weight is left, and
  the solver selects vertex 3 and returns instead of raising.
\<close>

theorem infinite_candidate_selected:
  "current_row graph_chain [0] 0 = Inr [(3, Inf)] \<and>
   nna_step graph_chain [0] 0 = Inr (3, Inf) \<and>
   nearest_neighbor_algorithm graph_chain None = Inr ([0, 3, 1, 2], 5)"
  by code_simp

text \<open>
  C8: for every mode name other than \<open>price\<close> and \<open>time\<close>, \<open>set_search_by\<close> raises
  the exception "... is incorrect search mode." and leaves the instance as it was: the
  weight function, the equality rule, the formatter and the search mode are unchanged.
\<close>

theorem set_search_by_unknown:
  assumes "param \<noteq> ''price''" and "param \<noteq> ''time''"
  shows "set_search_by fl param self =
           (Inl (Exception (param @ '' is incorrect search mode.'')), self)"
  using assms by (simp add: set_search_by_def)

text \<open>The mode name \<open>speed\<close> on the example instance.\<close>

theorem set_search_by_unknown_witness:
  "''speed'' \<noteq> ''price'' \<and> ''speed'' \<noteq> ''time'' \<and>
   set_search_by int_floats ''speed'' abc =
     (Inl (Exception ''speed is incorrect search mode.''), abc)"
proof -
  have a: "''speed'' \<noteq> ''price''" and b: "''speed'' \<noteq> ''time''" by simp_all
  from set_search_by_unknown [OF a b, of int_floats abc] show ?thesis by simp
qed

text \<open>
  C10: \<open>find_the_best_route\<close> calls the solver with start index 1 on the weight matrix
  it has just built. Whenever it gets as far as the header line on an input with at least
  two stations, the visiting sequence is the solver's result for start index 1; it begins
  with index 1, not 0, and the first leg of the route leaves from the station with index
  1 in sorted order. Under either strategy, the first record that the printing loop
  prints, when it prints one, has that station as its origin, whether or not the loop
  returns afterwards; when \<open>find_the_best_route\<close> returns, it has printed at least one
  record and the first one is that record.
\<close>

theorem route_starts_at_index_one:
  assumes plan: "route_plan fl self = Inr (self', (seq, tw), route, header)"
    and two: "2 \<le> length (stations self)"
  shows "(\<exists>m. get_weight_matrix self = Inr m \<and>
              nearest_neighbor_algorithm m (Some 1) = Inr (seq, tw)) \<and>
         hd seq = 1 \<and> hd seq \<noteq> 0 \<and> route \<noteq> [] \<and>
         item (hd route) 0 = Inr (stations self ! 1) \<and>
         (is_exect_schedule self = Some f \<and> (f = is_exect_price fl \<or> f = is_exect_time) \<longrightarrow>
            (\<forall>s. scan f (schedules self) route = Inr (Some s) \<longrightarrow>
                   item s 1 = Inr (stations self ! 1)) \<and>
            (\<forall>hdr printed. find_the_best_route fl self = Some (Inr (hdr, printed)) \<longrightarrow>
                   printed \<noteq> [] \<and> scan f (schedules self) route = Inr (Some (hd printed)) \<and>
                   item (hd printed) 1 = Inr (stations self ! 1)))"
proof -
  from route_plan_parts [OF plan] obtain m legs where m: "get_weight_matrix self = Inr m"
    and nna: "nearest_neighbor_algorithm m (Some 1) = Inr (seq, tw)"
    and self': "self' = self\<lparr>weight_matrix := Some m\<rparr>"
    and legs: "map_err (route_leg fl (self\<lparr>weight_matrix := Some m\<rparr>) m seq) (List.enumerate 0 seq) = Inr legs"
    and route: "route = butlast legs"
    by blast
  from nna_shape [OF nna] have hd: "hd seq = 1" and len: "length seq = length m"
    by simp_all
  from len get_weight_matrix_length [OF m] two have seq2: "2 \<le> length seq"
    by simp
  then have seq0: "seq ! 0 = 1"
    using hd by (cases seq) auto
  from map_err_nth [OF legs] have ll: "length legs = length seq"
    and all: "\<forall>k < length seq.
        route_leg fl (self\<lparr>weight_matrix := Some m\<rparr>) m seq (List.enumerate 0 seq ! k) = Inr (legs ! k)"
    by simp_all
  from seq2 have pos: "0 < length seq" by (cases seq) auto
  with all have
    leg0: "route_leg fl (self\<lparr>weight_matrix := Some m\<rparr>) m seq (List.enumerate 0 seq ! 0) = Inr (legs ! 0)"
    by blast
  from pos have "List.enumerate 0 seq ! 0 = (0, seq ! 0)"
    by (simp add: nth_enumerate_eq)
  with leg0 seq0 have "route_leg fl (self\<lparr>weight_matrix := Some m\<rparr>) m seq (0, 1) = Inr (legs ! 0)"
    by simp
  from route_leg_shape [OF this] obtain b c where leg: "legs ! 0 = [stations self ! 1, b, c]"
    by auto
  from ll seq2 have ne: "route \<noteq> []" and hr: "hd route = legs ! 0"
    unfolding route by (cases legs; cases "tl legs"; auto)+
  from hr leg have hdr: "hd route = [stations self ! 1, b, c]" by simp
  then have first: "item (hd route) 0 = Inr (stations self ! 1)"
    by (simp add: item_def)
  have origin: "item s 1 = Inr (stations self ! 1)"
    if f: "f = is_exect_price fl \<or> f = is_exect_time" and s: "scan f (schedules self) route = Inr (Some s)"
    for s
  proof -
    from s have t: "f s route = Inr True"
      unfolding scan_def by (rule find_first_Some [THEN conjunct2])
    from f show ?thesis
    proof
      assume "f = is_exect_price fl"
      with t have "is_exect_price fl s route = Inr True" by simp
      from price_rule_origin [OF this ne hdr] show ?thesis .
    next
      assume "f = is_exect_time"
      with t have "is_exect_time s route = Inr True" by simp
      from time_rule_origin [OF this ne hdr] show ?thesis .
    qed
  qed
  have printed: "printed \<noteq> [] \<and> scan f (schedules self) route = Inr (Some (hd printed)) \<and>
                 item (hd printed) 1 = Inr (stations self ! 1)"
    if r: "is_exect_schedule self = Some f" and f: "f = is_exect_price fl \<or> f = is_exect_time"
      and run: "find_the_best_route fl self = Some (Inr (hdr, printed))"
    for hdr printed
  proof -
    from r self' have r': "is_exect_schedule self' = Some f" by simp
    from self' have s': "schedules self' = schedules self" by simp
    from run have "print_loop f (schedules self) route [] = Some (Inr printed)"
      unfolding find_the_best_route_loop [OF plan r' s']
      by (auto split: option.splits sum.splits)
    from print_loop_head [OF this ne] origin [OF f] show ?thesis by simp
  qed
  from m nna hd ne first origin printed show ?thesis
    by (intro conjI impI allI) auto
qed

text \<open>
  On the example, in price mode, the sequence is 1, 2, 0, the first leg leaves from B and
  the first printed record is the schedule from B to C.
\<close>

theorem route_starts_at_index_one_witness:
  "2 \<le> length (stations (snd (set_search_by int_floats ''price'' abc))) \<and>
   (\<exists>self' header.
      route_plan int_floats (snd (set_search_by int_floats ''price'' abc)) =
        Inr (self', ([1, 2, 0], 12), [[''B'', ''C'', ''5.0''], [''C'', ''A'', ''7.0'']], header)) \<and>
   nearest_neighbor_algorithm [[Inf, Fin 8, Inf], [Inf, Inf, Fin 5], [Fin 7, Inf, Inf]] (Some 1)
     = Inr ([1, 2, 0], 12) \<and>
   hd [1::nat, 2, 0] = 1 \<and>
   stations (snd (set_search_by int_floats ''price'' abc)) ! 1 = ''B'' \<and>
   is_exect_schedule (snd (set_search_by int_floats ''price'' abc)) = Some (is_exect_price int_floats) \<and>
   (\<exists>hdr. find_the_best_route int_floats (snd (set_search_by int_floats ''price'' abc)) =
      Some (Inr (hdr, [[''2'', ''B'', ''C'', ''5'', ''08:30'', ''09:00''],
                       [''3'', ''C'', ''A'', ''7'', ''09:00'', ''09:30'']]))) \<and>
   item (hd [[''2'', ''B'', ''C'', ''5'', ''08:30'', ''09:00''],
             [''3'', ''C'', ''A'', ''7'', ''09:00'', ''09:30'']]) 1 = Inr ''B''"
proof -
  let ?P = "snd (set_search_by int_floats ''price'' abc)"
  have two: "2 \<le> length (stations ?P)"
    by (simp add: set_search_by_def abc_def)
  have st: "stations ?P ! 1 = ''B''"
    by (simp add: set_search_by_def abc_def)
  have rule: "is_exect_schedule ?P = Some (is_exect_price int_floats)"
    by (simp add: set_search_by_def)
  from abc_price_plan obtain self' header where
    plan: "route_plan int_floats ?P =
             Inr (self', ([1, 2, 0], 12), [[''B'', ''C'', ''5.0''], [''C'', ''A'', ''7.0'']], header)"
    by (auto split: sum.splits)
  note t = route_starts_at_index_one [OF plan two, of "is_exect_price int_floats"]
  from t abc_price_matrix
  have a: "nearest_neighbor_algorithm [[Inf, Fin 8, Inf], [Inf, Inf, Fin 5], [Fin 7, Inf, Inf]] (Some 1)
             = Inr ([1, 2, 0], 12)"
    by auto
  from t have b: "hd [1::nat, 2, 0] = 1" by blast
  from t rule abc_price_run st
  have c: "item (hd [[''2'', ''B'', ''C'', ''5'', ''08:30'', ''09:00''],
             [''3'', ''C'', ''A'', ''7'', ''09:00'', ''09:30'']]) 1 = Inr ''B''"
    by simp
  from two plan a b st rule abc_price_run c show ?thesis
    by blast
qed

text \<open>
  C5: for every instance, whatever weight function is installed, when
  \<open>_get_weight_matrix\<close> returns, each cell \<open>(i, j)\<close> of the matrix is the minimum of the
  weights of the records whose origin has index \<open>i\<close> and whose destination has index
  \<open>j\<close>, and it is infinity when there is no such record.
\<close>

theorem weight_matrix_cells:
  assumes "get_weight_matrix self = Inr m"
    and "i < length (stations self)" and "j < length (stations self)"
  shows "m ! i ! j = Min (set (Inf # cell_weights self i j)) \<and>
         (cell_weights self i j = [] \<longrightarrow> m ! i ! j = Inf)"
proof -
  let ?n = "length (stations self)"
  from assms have "m ! i ! j = fold min (cell_weights self i j) (replicate ?n (replicate ?n Inf) ! i ! j)"
    unfolding get_weight_matrix_def Let_def cell_weights_def
    by (intro matrix_loop_cell) simp_all
  with assms(2,3) have "m ! i ! j = fold min (cell_weights self i j) Inf"
    by simp
  then show ?thesis
    by (simp only: Min.set_eq_fold) simp
qed

text \<open>
  On the example in price mode, two records go from A to B, with prices 10 and 8: the
  cell is 8. No record goes from A to A: the cell is infinity.
\<close>

theorem weight_matrix_cells_witness:
  "get_weight_matrix (snd (set_search_by int_floats ''price'' abc)) =
     Inr [[Inf, Fin 8, Inf], [Inf, Inf, Fin 5], [Fin 7, Inf, Inf]] \<and>
   [[Inf, Fin 8, Inf], [Inf, Inf, Fin 5], [Fin 7, Inf, Inf]] ! 0 ! 1
     = Min (set (Inf # [Fin 10, Fin 8])) \<and>
   cell_weights (snd (set_search_by int_floats ''price'' abc)) 0 0 = [] \<and>
   [[Inf, Fin 8, Inf], [Inf, Inf, Fin 5], [Fin 7, Inf, Inf]] ! 0 ! 0 = Inf"
proof -
  have n: "(0::nat) < length (stations (snd (set_search_by int_floats ''price'' abc)))"
    "(1::nat) < length (stations (snd (set_search_by int_floats ''price'' abc)))"
    by (simp_all add: set_search_by_def abc_def)
  from weight_matrix_cells [OF abc_price_matrix n(1) n(2)]
       weight_matrix_cells [OF abc_price_matrix n(1) n(1)]
       abc_price_matrix abc_price_cell_01 abc_price_cell_00
  show ?thesis by simp
qed



end
